theory Spec2Isabelle
  imports Main "HOL-Library.Multiset"
begin

section \<open>Data model\<close>

text \<open>
  The decoded document is the value tree returned by the XML decoder
  (\<open>mxj.NewMapXml\<close>): a Go \<open>interface{}\<close> holding \<open>nil\<close>, a scalar, a
  \<open>map[string]interface{}\<close> or a \<open>[]interface{}\<close>. A map is kept as the list of its
  key/value pairs in the order in which a \<open>range\<close> statement visits them.
\<close>

datatype node =
    NNil
  | NScalar string
  | NMap "(string \<times> node) list"
  | NList "node list"

text \<open>
  Go types as seen through \<open>reflect.Type\<close>. \<open>TBasic name pkgPath\<close> stands for
  every kind other than pointer, slice and struct. A struct type carries its name, its
  package path and its fields; a field carries \<open>Name\<close>, \<open>PkgPath\<close> (non-empty for an
  unexported field), the value of \<open>Tag.Get("xml")\<close> and its type. Pointer and slice
  types carry their name and package path too, both empty for the unnamed composite
  types \<open>*T\<close> and \<open>[]T\<close>. Types are finite trees:
  the package does not support recursive struct types.
\<close>

datatype gtype =
    TBasic string string
  | TPtr string string gtype
  | TSlice string string gtype
  | TStruct string string "tfield list"
and tfield = TField string string string gtype

text \<open>
  Go values as seen through \<open>reflect.Value\<close>: what the walks read from a value is
  its type, and whether a pointer is nil. The value passed to an entry point is not the
  nil interface.
\<close>

datatype gval =
    VBasic string string
  | VNil string string
  | VPtr string string gval
  | VSlice string string gtype
  | VStruct string string "vfield list"
and vfield = VField string string string gval

primrec zero :: "gtype \<Rightarrow> gval" and zerof :: "tfield \<Rightarrow> vfield" where
  "zero (TBasic n p) = VBasic n p"
| "zero (TPtr n p t) = VNil n p"
| "zero (TSlice n p t) = VSlice n p t"
| "zero (TStruct n p fs) = VStruct n p (map zerof fs)"
| "zerof (TField n p tg t) = VField n p tg (zero t)"

text \<open>\<open>reflect.New(t)\<close>: a pointer to the zero value of \<open>t\<close>.\<close>

definition reflectNew :: "gtype \<Rightarrow> gval" where
  "reflectNew t = VPtr [] [] (zero t)"

text \<open>\<open>Type().Name()\<close> and \<open>Type().PkgPath()\<close> of a value.\<close>

fun tyName :: "gval \<Rightarrow> string" where
  "tyName (VBasic n p) = n"
| "tyName (VNil n p) = n"
| "tyName (VPtr n p v) = n"
| "tyName (VSlice n p t) = n"
| "tyName (VStruct n p fs) = n"

fun tyPkgPath :: "gval \<Rightarrow> string" where
  "tyPkgPath (VBasic n p) = p"
| "tyPkgPath (VNil n p) = p"
| "tyPkgPath (VPtr n p v) = p"
| "tyPkgPath (VSlice n p t) = p"
| "tyPkgPath (VStruct n p fs) = p"

fun fieldName :: "vfield \<Rightarrow> string" where
  "fieldName (VField n p tg v) = n"

fun fieldPkgPath :: "vfield \<Rightarrow> string" where
  "fieldPkgPath (VField n p tg v) = p"

fun fieldTag :: "vfield \<Rightarrow> string" where
  "fieldTag (VField n p tg v) = tg"

fun fieldVal :: "vfield \<Rightarrow> gval" where
  "fieldVal (VField n p tg v) = v"

text \<open>
  Step 1 of both walks: a pointer is replaced by what it points to
  (\<open>reflect.Indirect\<close>), and the walk returns when the result is the zero
  \<open>reflect.Value\<close> (\<open>None\<close> here), which is what a nil pointer gives.
\<close>

fun indirect :: "gval \<Rightarrow> gval option" where
  "indirect (VPtr n p v) = Some v"
| "indirect (VNil n p) = None"
| "indirect v = Some v"

text \<open>The element type of a slice, with one pointer level removed.\<close>

fun elemType :: "gtype \<Rightarrow> gtype" where
  "elemType (TPtr n p t) = t"
| "elemType t = t"

section \<open>Strings\<close>

text \<open>\<open>strings.Split(s, sep)\<close> for a one-character separator.\<close>

fun split :: "char \<Rightarrow> string \<Rightarrow> string list" where
  "split c [] = ['''']"
| "split c (x # xs) =
     (if x = c then [] # split c xs
      else (case split c xs of [] \<Rightarrow> [x # []] | w # ws \<Rightarrow> (x # w) # ws))"

section \<open>Global configuration\<close>

record skipmems =
  sm_val :: string
  sm_depth :: nat

record config =
  skiptags :: "string list"
  skipmembers :: "skipmems list"
  omitemptyOK :: bool
  mxjCast :: bool

text \<open>The package-level initial values.\<close>

definition initial :: config where
  "initial = \<lparr>skiptags = [], skipmembers = [], omitemptyOK = True, mxjCast = False\<rparr>"

definition SetTagsToIgnore :: "string list \<Rightarrow> config \<Rightarrow> config" where
  "SetTagsToIgnore s cfg =
     (if length s = 0 \<or> hd s = '''' then cfg\<lparr>skiptags := []\<rparr>
      else cfg\<lparr>skiptags := s\<rparr>)"

definition SetMembersToIgnore :: "string list \<Rightarrow> config \<Rightarrow> config" where
  "SetMembersToIgnore s cfg =
     (if length s = 0 then cfg\<lparr>skipmembers := take 0 (skipmembers cfg)\<rparr>
      else cfg\<lparr>skipmembers :=
             map (\<lambda>v. \<lparr>sm_val = v, sm_depth = length (split CHR ''.'' v)\<rparr>) s\<rparr>)"

definition IgnoreOmitemptyTag :: "bool list \<Rightarrow> config \<Rightarrow> config" where
  "IgnoreOmitemptyTag ok cfg =
     (if length ok = 0 then cfg\<lparr>omitemptyOK := \<not> omitemptyOK cfg\<rparr>
      else cfg\<lparr>omitemptyOK := hd ok\<rparr>)"

text \<open>
  \<open>SetMxjCast\<close> has no \<open>return\<close> after the toggle, so with no argument it goes on
  to read \<open>b[0]\<close> of an empty slice, which panics. A panic is returned together with
  the configuration at the moment it occurs.
\<close>

datatype panic = IndexOutOfRange

definition SetMxjCast :: "bool list \<Rightarrow> config \<Rightarrow> (panic \<times> config) + config" where
  "SetMxjCast b cfg =
     (let cfg1 = (if length b = 0 then cfg\<lparr>mxjCast := \<not> mxjCast cfg\<rparr> else cfg)
      in (case b of [] \<Rightarrow> Inl (IndexOutOfRange, cfg1)
          | b0 # _ \<Rightarrow> Inr (cfg1\<lparr>mxjCast := b0\<rparr>)))"

section \<open>The missing-seeking walk\<close>

text \<open>The local \<open>fieldSpec\<close> of \<open>checkMembers\<close>.\<close>

record fieldSpec =
  fs_name :: string
  fs_val :: gval
  fs_tag :: "string list"
  fs_omitempty :: bool

text \<open>
  One turn of the loop of step 4 of \<open>checkMembers\<close>: \<open>None\<close> when the field is
  passed over by a \<open>continue\<close>, the appended \<open>fieldSpec\<close> otherwise.
\<close>

definition memberSpec :: "vfield \<Rightarrow> fieldSpec option" where
  "memberSpec f =
     (if length (fieldPkgPath f) > 0 then None
      else if tyName (fieldVal f) = ''Name'' \<and> tyPkgPath (fieldVal f) = ''encoding/xml''
        then None
      else
        (let tagvals = fieldTag f;
             tags = split CHR '','' tagvals;
             tag = split CHR ''>'' (hd tags)
         in if hd tag = ''-'' then None
            else
              (let oempty = (''omitempty'' \<in> set (tl tags));
                   attr = (''attr'' \<in> set (tl tags))
               in if \<not> attr then
                    Some \<lparr>fs_name = fieldName f, fs_val = fieldVal f, fs_tag = tag,
                          fs_omitempty = oempty\<rparr>
                  else if hd tag = '''' then
                    Some \<lparr>fs_name = ''-'' @ fieldName f, fs_val = fieldVal f, fs_tag = tag,
                          fs_omitempty = oempty\<rparr>
                  else
                    Some \<lparr>fs_name = ''-'' @ fieldName f, fs_val = fieldVal f,
                          fs_tag = (''-'' @ hd tag) # tl tag, fs_omitempty = oempty\<rparr>)))"

fun memberFields :: "vfield list \<Rightarrow> fieldSpec list" where
  "memberFields [] = []"
| "memberFields (f # fs) =
     (case memberSpec f of None \<Rightarrow> memberFields fs | Some field \<Rightarrow> field # memberFields fs)"

text \<open>The copy \<open>mkeys\<close> of the document map made in step 3c.\<close>

definition mkeysOf :: "(string \<times> node) list \<Rightarrow> (string \<rightharpoonup> node)" where
  "mkeysOf mm = fold (\<lambda>(k, v) m. m(k \<mapsto> v)) mm Map.empty"

definition cmemdepth :: "string \<Rightarrow> nat" where
  "cmemdepth cmem = (if length cmem > 0 then length (split CHR ''.'' cmem) + 1 else 1)"

text \<open>The key under which a field is looked up, and its dot-path.\<close>

definition lookupName :: "fieldSpec \<Rightarrow> string" where
  "lookupName field = (if length (hd (fs_tag field)) > 0 then hd (fs_tag field) else fs_name field)"

definition joinPath :: "string \<Rightarrow> string \<Rightarrow> string" where
  "joinPath cmem fn = (if length cmem > 0 then cmem @ ''.'' @ fn else fn)"

text \<open>
  The inner loop over \<open>skipmembers\<close>: \<open>True\<close> when it leaves by \<open>goto next\<close>.
\<close>

fun skipMember :: "skipmems list \<Rightarrow> string \<Rightarrow> string \<Rightarrow> bool" where
  "skipMember [] cmem fn = False"
| "skipMember (sm # sms) cmem fn =
     (if cmemdepth cmem \<noteq> sm_depth sm then skipMember sms cmem fn
      else if length cmem > 0 then
        (if cmem @ ''.'' @ fn = sm_val sm then True else skipMember sms cmem fn)
      else if fn = sm_val sm then True
      else skipMember sms cmem fn)"

text \<open>A measure on schema values under which both walks descend.\<close>

primrec tsz :: "gtype \<Rightarrow> nat" and tfsz :: "tfield \<Rightarrow> nat" where
  "tsz (TBasic n p) = 0"
| "tsz (TPtr n p t) = Suc (tsz t)"
| "tsz (TSlice n p t) = Suc (Suc (tsz t))"
| "tsz (TStruct n p fs) = Suc (sum_list (map tfsz fs))"
| "tfsz (TField n p tg t) = tsz t"

primrec vsz :: "gval \<Rightarrow> nat" and vfsz :: "vfield \<Rightarrow> nat" where
  "vsz (VBasic n p) = 0"
| "vsz (VNil n p) = 0"
| "vsz (VPtr n p v) = Suc (vsz v)"
| "vsz (VSlice n p t) = Suc (Suc (tsz t))"
| "vsz (VStruct n p fs) = Suc (sum_list (map vfsz fs))"
| "vfsz (VField n p tg v) = vsz v"

lemma vsz_zero: "vsz (zero t) \<le> tsz t" and vfsz_zerof: "vfsz (zerof f) \<le> tfsz f"
proof (induction t and f)
  case (TStruct n p fs)
  have "sum_list (map vfsz (map zerof fs)) \<le> sum_list (map tfsz fs)"
    using TStruct by (induction fs) (auto simp: add_mono)
  then show ?case by simp
qed simp_all

lemma tsz_elemType: "tsz (elemType t) \<le> tsz t"
  by (cases t) simp_all

lemma vsz_indirect: "indirect val = Some v \<Longrightarrow> vsz v \<le> vsz val"
  by (cases val) auto

lemma vsz_reflectNew: "vsz (reflectNew (elemType t)) < vsz (VSlice tn tp t)"
  using vsz_zero [of "elemType t"] tsz_elemType [of t] by (simp add: reflectNew_def)

lemma vfsz_member: "f \<in> set fs \<Longrightarrow> vfsz f \<le> sum_list (map vfsz fs)"
  by (induction fs) auto

lemma vsz_fieldVal: "vsz (fieldVal f) = vfsz f"
  by (cases f) simp

lemma vsz_field: "f \<in> set fs \<Longrightarrow> vsz (fieldVal f) < vsz (VStruct n p fs)"
  using vfsz_member [of f fs] by (simp add: vsz_fieldVal)

lemma memberSpec_val: "memberSpec f = Some field \<Longrightarrow> fs_val field = fieldVal f"
  by (auto simp: memberSpec_def Let_def split: if_splits)

lemma memberFields_val:
  "field \<in> set (memberFields fs) \<Longrightarrow> \<exists>f \<in> set fs. fs_val field = fieldVal f"
  by (induction fs) (auto split: option.splits dest: memberSpec_val)

text \<open>
  \<open>checkMembers\<close> only ever appends to \<open>*s\<close> and never reads it: the model
  returns the entries appended by the call, in order.
\<close>

function checkMembers :: "config \<Rightarrow> node \<Rightarrow> gval \<Rightarrow> string \<Rightarrow> string list" where
  "checkMembers cfg mv val cmem =
     (case indirect val of
        None \<Rightarrow> []
      | Some v \<Rightarrow>
          (case v of
             VSlice tn tp t \<Rightarrow>
               (let sval = reflectNew (elemType t);
                    slice = (case mv of NList xs \<Rightarrow> xs | _ \<Rightarrow> [mv])
                in concat (map (\<lambda>sl. checkMembers cfg sl sval cmem) slice))
           | VStruct n p fs \<Rightarrow>
               (case mv of
                  NMap mm \<Rightarrow>
                    concat (map (\<lambda>field.
                      (let fn = lookupName field in
                       if skipMember (skipmembers cfg) cmem fn then []
                       else
                         (if mkeysOf mm fn = None \<and> (\<not> fs_omitempty field \<or> \<not> omitemptyOK cfg)
                          then [joinPath cmem fn] else [])
                         @ checkMembers cfg (case mkeysOf mm fn of None \<Rightarrow> NNil | Some v \<Rightarrow> v)
                             (fs_val field) (joinPath cmem fn)))
                      (memberFields fs))
                | _ \<Rightarrow> [cmem @ n])
           | _ \<Rightarrow> []))"
  by pat_completeness auto
termination
proof (relation "measure (\<lambda>(cfg, mv, val, cmem). vsz val)", goal_cases)
  case 1
  show ?case by simp
next
  case (2 cfg mv val cmem v tn tp t sval slice sl)
  then show ?case
    using vsz_indirect [of val v] vsz_reflectNew [of t] by simp
next
  case (3 cfg mv val cmem v n p fs mm field fn)
  obtain f where "f \<in> set fs" "fs_val field = fieldVal f"
    using memberFields_val [OF 3(4)] by blast
  then show ?case
    using 3 vsz_indirect [of val v] vsz_field [of f fs n p] by simp
qed

declare checkMembers.simps [simp del]

text \<open>One turn of the loop of step 5 of \<open>checkMembers\<close>, for one \<open>fieldSpec\<close>.\<close>

definition memberTurn ::
  "config \<Rightarrow> (string \<times> node) list \<Rightarrow> string \<Rightarrow> fieldSpec \<Rightarrow> string list" where
  "memberTurn cfg mm cmem field =
     (let fn = lookupName field in
      if skipMember (skipmembers cfg) cmem fn then []
      else
        (if mkeysOf mm fn = None \<and> (\<not> fs_omitempty field \<or> \<not> omitemptyOK cfg)
         then [joinPath cmem fn] else [])
        @ checkMembers cfg (case mkeysOf mm fn of None \<Rightarrow> NNil | Some v \<Rightarrow> v)
            (fs_val field) (joinPath cmem fn))"

datatype error = ParseFailure string | NoElements

text \<open>
  The entry points take the outcome of the decoder as an argument: \<open>Inl e\<close> when
  \<open>mxj.NewMapXml\<close> returns the error \<open>e\<close>, \<open>Inr m\<close> when it returns the map
  \<open>m\<close>, whose first pair in \<open>range\<close> order is the root tag with its value. The
  entry points that read from an \<open>io.Reader\<close> or also return the map or the raw bytes
  differ from these in the decoder they call and in what they hand back alongside.
\<close>

definition firstValue :: "(string \<times> node) list \<Rightarrow> node" where
  "firstValue m = (case m of [] \<Rightarrow> NNil | (k, v) # _ \<Rightarrow> v)"

definition firstPair :: "(string \<times> node) list \<Rightarrow> string \<times> node" where
  "firstPair m = (case m of [] \<Rightarrow> ([], NNil) | (k, v) # _ \<Rightarrow> (k, v))"

text \<open>
  \<open>MissingXMLTags\<close> ranges over the map with \<open>for _, v = range m\<close>: \<open>root\<close>
  keeps its initial value, the empty string. When the root value is a list, the type
  assertion to a map has failed and left \<open>vv\<close> the nil map, which is what
  \<open>checkMembers\<close> is then given.
\<close>

definition MissingXMLTags ::
  "config \<Rightarrow> string + (string \<times> node) list \<Rightarrow> gval \<Rightarrow> string list \<times> string \<times> error option" where
  "MissingXMLTags cfg loaded val =
     (case loaded of
        Inl e \<Rightarrow> ([], [], Some (ParseFailure e))
      | Inr m \<Rightarrow>
          (let root = []; v = firstValue m in
           (case v of
              NMap vv \<Rightarrow> (checkMembers cfg (NMap vv) val [], root, None)
            | NList xs \<Rightarrow> (checkMembers cfg (NMap []) val [], root, None)
            | _ \<Rightarrow> ([tyName val], root, None))))"

text \<open>\<open>MissingXMLTagsMap\<close> ranges with \<open>for root, v = range m\<close> and also returns the map.\<close>

definition MissingXMLTagsMap ::
  "config \<Rightarrow> string + (string \<times> node) list \<Rightarrow> gval
     \<Rightarrow> string list \<times> (string \<times> node) list \<times> string \<times> error option" where
  "MissingXMLTagsMap cfg loaded val =
     (case loaded of
        Inl e \<Rightarrow> ([], [], [], Some (ParseFailure e))
      | Inr m \<Rightarrow>
          (let (root, v) = firstPair m in
           (case v of
              NMap vv \<Rightarrow> (checkMembers cfg (NMap vv) val [], m, root, None)
            | NList xs \<Rightarrow> (checkMembers cfg (NMap []) val [], m, root, None)
            | _ \<Rightarrow> ([tyName val], m, root, None))))"

section \<open>The unknown-seeking walk\<close>

text \<open>
  The local \<open>fieldSpec\<close> of \<open>checkAllTags\<close>. The map \<open>fields\<close> of the source
  is called \<open>fieldsM\<close> below.
\<close>

record tagSpec =
  ts_val :: gval
  ts_tag :: "string list"

text \<open>
  One turn of the loop of step 4 of \<open>checkAllTags\<close>: \<open>None\<close> when the field is
  passed over, otherwise the key and the \<open>fieldSpec\<close> stored under it.
\<close>

definition tagEntry :: "vfield \<Rightarrow> (string \<times> tagSpec) option" where
  "tagEntry f =
     (if length (fieldPkgPath f) > 0 then None
      else if tyName (fieldVal f) = ''Name'' \<and> tyPkgPath (fieldVal f) = ''encoding/xml''
        then None
      else
        (let tagvals = fieldTag f;
             tags = split CHR '','' tagvals;
             tag0 = split CHR ''>'' (hd tags);
             tag = (if hd tag0 = ''-'' then [''''] else tag0);
             attr = (''attr'' \<in> set (tl tags))
         in if \<not> attr then
              (if hd tag = [] then Some (fieldName f, \<lparr>ts_val = fieldVal f, ts_tag = tag\<rparr>)
               else Some (hd tag, \<lparr>ts_val = fieldVal f, ts_tag = tag\<rparr>))
            else
              (if hd tag = [] then
                 Some (''-'' @ fieldName f, \<lparr>ts_val = fieldVal f, ts_tag = tag\<rparr>)
               else Some (''-'' @ hd tag, \<lparr>ts_val = fieldVal f, ts_tag = tag\<rparr>))))"

fun tagFields :: "vfield list \<Rightarrow> (string \<rightharpoonup> tagSpec) \<Rightarrow> (string \<rightharpoonup> tagSpec)" where
  "tagFields [] fieldsM = fieldsM"
| "tagFields (f # fs) fieldsM =
     tagFields fs (case tagEntry f of None \<Rightarrow> fieldsM | Some (k, spec) \<Rightarrow> fieldsM(k \<mapsto> spec))"

text \<open>The inner loop over \<open>skiptags\<close>: \<open>True\<close> when it leaves by \<open>goto next\<close>.\<close>

fun skipTag :: "string list \<Rightarrow> string \<Rightarrow> string \<Rightarrow> bool" where
  "skipTag [] key k = False"
| "skipTag (sk # sks) key k =
     (if key = [] \<and> k = sk then True
      else if key \<noteq> [] \<and> key @ ''.'' @ k = sk then True
      else skipTag sks key k)"

definition tkeyOf :: "string \<Rightarrow> string \<Rightarrow> string" where
  "tkeyOf key k = (if key = [] then k else key @ ''.'' @ k)"

lemma tagEntry_val: "tagEntry f = Some (k, spec) \<Longrightarrow> ts_val spec = fieldVal f"
  by (auto simp: tagEntry_def Let_def split: if_splits)

lemma tagFields_val:
  "tagFields fs fieldsM k = Some spec \<Longrightarrow>
     fieldsM k = Some spec \<or> (\<exists>f \<in> set fs. ts_val spec = fieldVal f)"
proof (induction fs arbitrary: fieldsM)
  case Nil
  then show ?case by simp
next
  case (Cons f fs)
  from Cons.IH [OF Cons.prems [simplified]] show ?case
    by (auto split: option.splits if_splits dest: tagEntry_val)
qed

function checkAllTags :: "config \<Rightarrow> node \<Rightarrow> gval \<Rightarrow> string \<Rightarrow> string list" where
  "checkAllTags cfg mv val key =
     (case indirect val of
        None \<Rightarrow> []
      | Some v \<Rightarrow>
          (case v of
             VSlice tn tp t \<Rightarrow>
               (let sval = reflectNew (elemType t) in
                (case mv of
                   NList slice \<Rightarrow> concat (map (\<lambda>sl. checkAllTags cfg sl sval key) slice)
                 | _ \<Rightarrow> [key]))
           | VStruct n p fs \<Rightarrow>
               (let mm = (case mv of NMap kvs \<Rightarrow> kvs | _ \<Rightarrow> []);
                    ok = (case mv of NMap kvs \<Rightarrow> True | _ \<Rightarrow> False);
                    fieldsM = tagFields fs Map.empty
                in (if \<not> ok then [key] else [])
                   @ concat (map (\<lambda>(k, m).
                       if skipTag (skiptags cfg) key k then []
                       else
                         (let tkey = tkeyOf key k in
                          (case fieldsM k of
                             None \<Rightarrow> [tkey]
                           | Some spec \<Rightarrow> checkAllTags cfg m (ts_val spec) tkey)))
                       mm))
           | _ \<Rightarrow> []))"
  by pat_completeness auto
termination
proof (relation "measure (\<lambda>(cfg, mv, val, key). vsz val)", goal_cases)
  case 1
  show ?case by simp
next
  case (2 cfg mv val key v tn tp t sval slice sl)
  then show ?case
    using vsz_indirect [of val v] vsz_reflectNew [of t] by simp
next
  case (3 cfg mv val key v n p fs mm ok fieldsM kv k m tkey spec)
  then have "tagFields fs Map.empty k = Some spec" by simp
  then obtain f where "f \<in> set fs" "ts_val spec = fieldVal f"
    using tagFields_val [of fs Map.empty k spec] by auto
  then show ?case
    using 3 vsz_indirect [of val v] vsz_field [of f fs n p] by simp
qed

declare checkAllTags.simps [simp del]

text \<open>One turn of the loop of step 5 of \<open>checkAllTags\<close>, for one pair of the map.\<close>

definition tagTurn ::
  "config \<Rightarrow> (string \<rightharpoonup> tagSpec) \<Rightarrow> string \<Rightarrow> string \<times> node \<Rightarrow> string list" where
  "tagTurn cfg fieldsM key = (\<lambda>(k, m).
     if skipTag (skiptags cfg) key k then []
     else
       (let tkey = tkeyOf key k in
        (case fieldsM k of
           None \<Rightarrow> [tkey]
         | Some spec \<Rightarrow> checkAllTags cfg m (ts_val spec) tkey)))"

definition UnknownXMLTags ::
  "config \<Rightarrow> string + (string \<times> node) list \<Rightarrow> gval \<Rightarrow> string list \<times> string \<times> error option" where
  "UnknownXMLTags cfg loaded val =
     (case loaded of
        Inl e \<Rightarrow> ([], [], Some (ParseFailure e))
      | Inr m \<Rightarrow>
          (let (root, v) = firstPair m in
           (case v of
              NMap vv \<Rightarrow> (checkAllTags cfg v val [], root, None)
            | NList xs \<Rightarrow> (checkAllTags cfg v val [], root, None)
            | _ \<Rightarrow> ([], root, Some NoElements))))"

section \<open>Vocabulary of the properties\<close>

subsection \<open>Shapes of nodes\<close>

fun isMap :: "node \<Rightarrow> bool" where
  "isMap (NMap kvs) = True"
| "isMap _ = False"

fun isList :: "node \<Rightarrow> bool" where
  "isList (NList xs) = True"
| "isList _ = False"

subsection \<open>One document in two orders\<close>

text \<open>
  Go does not fix the order in which \<open>range\<close> visits the pairs of a map: two calls on
  the same document may visit them in different orders. \<open>sameDoc a b\<close> holds when
  \<open>a\<close> and \<open>b\<close> are the same document up to the order of the pairs of its maps (whose
  keys are distinct).
\<close>

fun sameDoc :: "node \<Rightarrow> node \<Rightarrow> bool" where
  "sameDoc NNil NNil = True"
| "sameDoc (NScalar s) (NScalar t) = (s = t)"
| "sameDoc (NList xs) (NList ys) = list_all2 sameDoc xs ys"
| "sameDoc (NMap kvs) (NMap kvs') =
     (distinct (map fst kvs) \<and> distinct (map fst kvs') \<and> length kvs = length kvs'
      \<and> list_all (\<lambda>(k, v). case map_of kvs' k of None \<Rightarrow> False | Some v' \<Rightarrow> sameDoc v v') kvs)"
| "sameDoc _ _ = False"

subsection \<open>Dot-paths\<close>

text \<open>
  A dot-path is valid when none of its segments is empty; in particular it is not the
  empty string. A name is clean when it is not empty and contains no dot, and a
  document is clean when the keys of all its maps are.
\<close>

definition validPath :: "string \<Rightarrow> bool" where
  "validPath p \<longleftrightarrow> [] \<notin> set (split CHR ''.'' p)"

definition cleanName :: "string \<Rightarrow> bool" where
  "cleanName k \<longleftrightarrow> k \<noteq> [] \<and> CHR ''.'' \<notin> set k"

fun cleanDoc :: "node \<Rightarrow> bool" where
  "cleanDoc (NMap kvs) = list_all (\<lambda>(k, v). cleanName k \<and> cleanDoc v) kvs"
| "cleanDoc (NList xs) = list_all cleanDoc xs"
| "cleanDoc _ = True"

text \<open>
  A list of keys resolves in a document when the keys can be followed one after the
  other from the node, through maps by key and through the members of lists.
\<close>

fun resolves :: "node \<Rightarrow> string list \<Rightarrow> bool" where
  "resolves mv [] = True"
| "resolves (NMap kvs) (k # ks) = list_ex (\<lambda>(k', v). k' = k \<and> resolves v ks) kvs"
| "resolves (NList xs) (k # ks) = list_ex (\<lambda>x. resolves x (k # ks)) xs"
| "resolves _ (k # ks) = False"

text \<open>
  The values declared in a struct definition under a list of names: the names are
  followed through the fields of nested structs, under the names by which
  \<open>checkMembers\<close> looks them up, and through the element types of slices.
\<close>

function declared :: "gval \<Rightarrow> string list \<Rightarrow> gval list" where
  "declared val ks =
     (case indirect val of
        None \<Rightarrow> (if ks = [] then [val] else [])
      | Some v \<Rightarrow>
          (case v of
             VSlice tn tp t \<Rightarrow> (if ks = [] then [val] else []) @ declared (reflectNew (elemType t)) ks
           | VStruct n p fs \<Rightarrow>
               (case ks of
                  [] \<Rightarrow> [val]
                | k # ks' \<Rightarrow>
                    concat (map (\<lambda>field. if lookupName field = k
                                           then declared (fs_val field) ks' else [])
                             (memberFields fs)))
           | _ \<Rightarrow> (if ks = [] then [val] else [])))"
  by pat_completeness auto
termination
proof (relation "measure (\<lambda>(val, ks). vsz val)", goal_cases)
  case 1
  show ?case by simp
next
  case (2 val ks v tn tp t)
  then show ?case using vsz_indirect [of val v] vsz_reflectNew [of t] by simp
next
  case (3 val ks v n p fs k ks' field)
  obtain f where "f \<in> set fs" "fs_val field = fieldVal f"
    using memberFields_val [OF 3(4)] by blast
  then show ?case
    using 3 vsz_indirect [of val v] vsz_field [of f fs n p] by simp
qed

declare declared.simps [simp del]

text \<open>A struct definition is clean when all the names that the walk can look up in it are.\<close>

function cleanSchema :: "gval \<Rightarrow> bool" where
  "cleanSchema val =
     (case indirect val of
        None \<Rightarrow> True
      | Some v \<Rightarrow>
          (case v of
             VSlice tn tp t \<Rightarrow> cleanSchema (reflectNew (elemType t))
           | VStruct n p fs \<Rightarrow>
               list_all (\<lambda>field. cleanName (lookupName field) \<and> cleanSchema (fs_val field))
                 (memberFields fs)
           | _ \<Rightarrow> True))"
  by pat_completeness auto
termination
proof (relation "measure vsz", goal_cases)
  case 1
  show ?case by simp
next
  case (2 val v tn tp t)
  then show ?case using vsz_indirect [of val v] vsz_reflectNew [of t] by simp
next
  case (3 val v n p fs field)
  obtain f where "f \<in> set fs" "fs_val field = fieldVal f"
    using memberFields_val [OF 3(3)] by blast
  then show ?case
    using 3 vsz_indirect [of val v] vsz_field [of f fs n p] by simp
qed

declare cleanSchema.simps [simp del]

text \<open>
  A field path of a struct definition is a valid dot-path whose segments lead to a
  declared value.
\<close>

definition fieldPath :: "gval \<Rightarrow> string \<Rightarrow> bool" where
  "fieldPath val e \<longleftrightarrow> validPath e \<and> declared val (split CHR ''.'' e) \<noteq> []"

subsection \<open>The calls of the unknown-seeking walk\<close>

text \<open>
  The calls of \<open>checkAllTags\<close> that are made in the course of one call, that call
  included, each with its node, its value and its path: the recursion is that of
  \<open>checkAllTags\<close>, with the arguments collected in place of the entries.
\<close>

function checkAllTagsCalls ::
  "config \<Rightarrow> node \<Rightarrow> gval \<Rightarrow> string \<Rightarrow> (node \<times> gval \<times> string) list" where
  "checkAllTagsCalls cfg mv val key =
     (mv, val, key) #
     (case indirect val of
        None \<Rightarrow> []
      | Some v \<Rightarrow>
          (case v of
             VSlice tn tp t \<Rightarrow>
               (let sval = reflectNew (elemType t) in
                (case mv of
                   NList slice \<Rightarrow> concat (map (\<lambda>sl. checkAllTagsCalls cfg sl sval key) slice)
                 | _ \<Rightarrow> []))
           | VStruct n p fs \<Rightarrow>
               (let mm = (case mv of NMap kvs \<Rightarrow> kvs | _ \<Rightarrow> []);
                    fieldsM = tagFields fs Map.empty
                in concat (map (\<lambda>(k, m).
                     if skipTag (skiptags cfg) key k then []
                     else
                       (case fieldsM k of
                          None \<Rightarrow> []
                        | Some spec \<Rightarrow> checkAllTagsCalls cfg m (ts_val spec) (tkeyOf key k)))
                     mm))
           | _ \<Rightarrow> []))"
  by pat_completeness auto
termination
proof (relation "measure (\<lambda>(cfg, mv, val, key). vsz val)", goal_cases)
  case 1
  show ?case by simp
next
  case (2 cfg mv val key v tn tp t sval slice sl)
  then show ?case
    using vsz_indirect [of val v] vsz_reflectNew [of t] by simp
next
  case (3 cfg mv val key v n p fs mm fieldsM kv k m spec)
  then have "tagFields fs Map.empty k = Some spec" by simp
  then obtain f where "f \<in> set fs" "ts_val spec = fieldVal f"
    using tagFields_val [of fs Map.empty k spec] by auto
  then show ?case
    using 3 vsz_indirect [of val v] vsz_field [of f fs n p] by simp
qed

declare checkAllTagsCalls.simps [simp del]

text \<open>
  The pairs of a node that is a map; a node that is not a map has none, as the nil map
  that the failed type assertion leaves in \<open>mm\<close>.
\<close>

fun pairsOf :: "node \<Rightarrow> (string \<times> node) list" where
  "pairsOf (NMap kvs) = kvs"
| "pairsOf _ = []"

text \<open>
  The entries that one call of \<open>checkAllTags\<close> appends itself, those of the calls
  it makes left out: the path, for a slice against a node that is not a list and for a
  struct against a node that is not a map, and the paths of the keys that match no field.
\<close>

definition ownTags :: "config \<Rightarrow> node \<times> gval \<times> string \<Rightarrow> string list" where
  "ownTags cfg = (\<lambda>(mv, val, key).
     (case indirect val of
        None \<Rightarrow> []
      | Some v \<Rightarrow>
          (case v of
             VSlice tn tp t \<Rightarrow> (if isList mv then [] else [key])
           | VStruct n p fs \<Rightarrow>
               (if isMap mv then [] else [key])
               @ concat (map (\<lambda>(k, m).
                   if skipTag (skiptags cfg) key k then []
                   else (case tagFields fs Map.empty k of
                           None \<Rightarrow> [tkeyOf key k]
                         | Some spec \<Rightarrow> []))
                   (pairsOf mv))
           | _ \<Rightarrow> [])))"

subsection \<open>Members on the ignore list\<close>

text \<open>
  A member, given by the path of its struct and the name under which it is looked up,
  is on the ignore list \<open>s\<close> when its full dot-path is one of the strings of \<open>s\<close>
  and the number of dot-segments of that string is the current depth.
\<close>

definition ignoredMember :: "string list \<Rightarrow> string \<Rightarrow> string \<Rightarrow> bool" where
  "ignoredMember s cmem fn \<longleftrightarrow>
     joinPath cmem fn \<in> set s
     \<and> length (split CHR ''.'' (joinPath cmem fn)) = cmemdepth cmem"

subsection \<open>The two origins of an entry of the missing-seeking walk\<close>

text \<open>
  \<open>checkMembers\<close> appends to \<open>*s\<close> in two places: the path of a field that the
  map lacks, and the entry for a node that is not a map. \<open>checkMembersFrom\<close> is
  \<open>checkMembers\<close> with every entry marked by the place that appended it.
\<close>

datatype origin = AbsentField | NotAMap

function checkMembersFrom ::
  "config \<Rightarrow> node \<Rightarrow> gval \<Rightarrow> string \<Rightarrow> (origin \<times> string) list" where
  "checkMembersFrom cfg mv val cmem =
     (case indirect val of
        None \<Rightarrow> []
      | Some v \<Rightarrow>
          (case v of
             VSlice tn tp t \<Rightarrow>
               (let sval = reflectNew (elemType t);
                    slice = (case mv of NList xs \<Rightarrow> xs | _ \<Rightarrow> [mv])
                in concat (map (\<lambda>sl. checkMembersFrom cfg sl sval cmem) slice))
           | VStruct n p fs \<Rightarrow>
               (case mv of
                  NMap mm \<Rightarrow>
                    concat (map (\<lambda>field.
                      (let fn = lookupName field in
                       if skipMember (skipmembers cfg) cmem fn then []
                       else
                         (if mkeysOf mm fn = None \<and> (\<not> fs_omitempty field \<or> \<not> omitemptyOK cfg)
                          then [(AbsentField, joinPath cmem fn)] else [])
                         @ checkMembersFrom cfg
                             (case mkeysOf mm fn of None \<Rightarrow> NNil | Some v \<Rightarrow> v)
                             (fs_val field) (joinPath cmem fn)))
                      (memberFields fs))
                | _ \<Rightarrow> [(NotAMap, cmem @ n)])
           | _ \<Rightarrow> []))"
  by pat_completeness auto
termination
proof (relation "measure (\<lambda>(cfg, mv, val, cmem). vsz val)", goal_cases)
  case 1
  show ?case by simp
next
  case (2 cfg mv val cmem v tn tp t sval slice sl)
  then show ?case
    using vsz_indirect [of val v] vsz_reflectNew [of t] by simp
next
  case (3 cfg mv val cmem v n p fs mm field fn)
  obtain f where "f \<in> set fs" "fs_val field = fieldVal f"
    using memberFields_val [OF 3(4)] by blast
  then show ?case
    using 3 vsz_indirect [of val v] vsz_field [of f fs n p] by simp
qed

declare checkMembersFrom.simps [simp del]

subsection \<open>Example schemas\<close>

definition goString :: gval where
  "goString = VBasic ''string'' []"

definition goBool :: gval where
  "goBool = VBasic ''bool'' []"

text \<open>The struct of the first example in the documentation of \<open>MissingXMLTags\<close>.\<close>

definition doc1 :: gval where
  "doc1 = VStruct ''doc1'' ''checkxml''
     [VField ''E1'' [] ''e1'' goString, VField ''E2'' [] ''e2'' goString]"

text \<open>The struct \<open>Y\<close> of \<open>TestUnknownTagsSingletonList\<close>.\<close>

definition Y :: gval where
  "Y = VStruct ''Y'' ''checkxml''
     [VField ''Property'' [] ''xx'' (VSlice [] [] (TBasic ''string'' []))]"

text \<open>The structs of \<open>TestMissingXMLTagsSubElements\<close>.\<close>

definition test3 :: gval where
  "test3 = VStruct ''test3'' ''checkxml''
     [VField ''Something'' [] ''something'' goString, VField ''Else'' [] ''else'' goString]"

definition test2 :: gval where
  "test2 = VStruct ''test2'' ''checkxml''
     [VField ''Why'' [] [] goString, VField ''Not'' [] [] goString,
      VField ''Another'' [] [] test3]"

definition test :: gval where
  "test = VStruct ''test'' ''checkxml''
     [VField ''Ok'' [] ''ok'' goBool, VField ''Why'' [] ''why'' goString,
      VField ''More'' [] ''more'' test2]"

text \<open>
  The struct \<open>test2\<close> of \<open>TestUnknownXMLTagsWithIgnoreTag\<close>, and a struct with an
  ignored field of that struct type.
\<close>

definition ignoring2 :: gval where
  "ignoring2 = VStruct ''test2'' ''checkxml'' [VField ''Maybe'' [] ''-'' goBool]"

definition ignoringStruct :: gval where
  "ignoringStruct = VStruct ''test'' ''checkxml'' [VField ''Why'' [] ''-'' ignoring2]"

section \<open>Equations of the walks\<close>

text \<open>The equations of the two walks, one for each way through them.\<close>

lemma checkMembers_nil: "indirect val = None \<Longrightarrow> checkMembers cfg mv val cmem = []"
  by (simp add: checkMembers.simps)

lemma checkMembers_slice_list:
  "indirect val = Some (VSlice tn tp t) \<Longrightarrow>
     checkMembers cfg (NList xs) val cmem
       = concat (map (\<lambda>sl. checkMembers cfg sl (reflectNew (elemType t)) cmem) xs)"
  by (subst checkMembers.simps) simp

lemma checkMembers_slice_not_list:
  "indirect val = Some (VSlice tn tp t) \<Longrightarrow> \<not> isList mv \<Longrightarrow>
     checkMembers cfg mv val cmem = checkMembers cfg mv (reflectNew (elemType t)) cmem"
  by (subst checkMembers.simps, cases mv) simp_all

lemma checkMembers_struct_map:
  "indirect val = Some (VStruct n p fs) \<Longrightarrow>
     checkMembers cfg (NMap mm) val cmem
       = concat (map (memberTurn cfg mm cmem) (memberFields fs))"
  by (subst checkMembers.simps) (simp add: memberTurn_def [abs_def])

lemma checkMembers_struct_not_map:
  "indirect val = Some (VStruct n p fs) \<Longrightarrow> \<not> isMap mv \<Longrightarrow>
     checkMembers cfg mv val cmem = [cmem @ n]"
  by (cases mv) (simp_all add: checkMembers.simps)

lemma checkMembers_other:
  "indirect val = Some v \<Longrightarrow> (\<forall>tn tp t. v \<noteq> VSlice tn tp t) \<Longrightarrow> (\<forall>n p fs. v \<noteq> VStruct n p fs) \<Longrightarrow>
     checkMembers cfg mv val cmem = []"
  by (cases v) (simp_all add: checkMembers.simps)

lemma checkMembers_basic [simp]: "checkMembers cfg mv (VBasic n p) cmem = []"
  by (simp add: checkMembers.simps)

lemma checkAllTags_nil: "indirect val = None \<Longrightarrow> checkAllTags cfg mv val key = []"
  by (simp add: checkAllTags.simps)

lemma checkAllTags_slice_list:
  "indirect val = Some (VSlice tn tp t) \<Longrightarrow>
     checkAllTags cfg (NList xs) val key
       = concat (map (\<lambda>sl. checkAllTags cfg sl (reflectNew (elemType t)) key) xs)"
  by (subst checkAllTags.simps) simp

lemma checkAllTags_slice_not_list:
  "indirect val = Some (VSlice tn tp t) \<Longrightarrow> \<not> isList mv \<Longrightarrow> checkAllTags cfg mv val key = [key]"
  by (cases mv) (simp_all add: checkAllTags.simps)

lemma checkAllTags_struct_map:
  "indirect val = Some (VStruct n p fs) \<Longrightarrow>
     checkAllTags cfg (NMap mm) val key
       = concat (map (tagTurn cfg (tagFields fs Map.empty) key) mm)"
  by (subst checkAllTags.simps) (simp add: tagTurn_def [abs_def])

lemma checkAllTags_not_map:
  "indirect val = Some (VStruct n p fs) \<Longrightarrow> \<not> isMap mv \<Longrightarrow> checkAllTags cfg mv val key = [key]"
  by (cases mv) (simp_all add: checkAllTags.simps)

lemma checkAllTags_other:
  "indirect val = Some v \<Longrightarrow> (\<forall>tn tp t. v \<noteq> VSlice tn tp t) \<Longrightarrow> (\<forall>n p fs. v \<noteq> VStruct n p fs) \<Longrightarrow>
     checkAllTags cfg mv val key = []"
  by (cases v) (simp_all add: checkAllTags.simps)

lemma checkAllTags_basic [simp]: "checkAllTags cfg mv (VBasic n p) key = []"
  by (simp add: checkAllTags.simps)

lemma checkAllTagsCalls_nil: "indirect val = None \<Longrightarrow> checkAllTagsCalls cfg mv val key = [(mv, val, key)]"
  by (simp add: checkAllTagsCalls.simps)

lemma checkAllTagsCalls_slice_list:
  "indirect val = Some (VSlice tn tp t) \<Longrightarrow>
     checkAllTagsCalls cfg (NList xs) val key
       = (NList xs, val, key)
         # concat (map (\<lambda>sl. checkAllTagsCalls cfg sl (reflectNew (elemType t)) key) xs)"
  by (subst checkAllTagsCalls.simps) simp

lemma checkAllTagsCalls_slice_not_list:
  "indirect val = Some (VSlice tn tp t) \<Longrightarrow> \<not> isList mv \<Longrightarrow>
     checkAllTagsCalls cfg mv val key = [(mv, val, key)]"
  by (cases mv) (simp_all add: checkAllTagsCalls.simps)

lemma checkAllTagsCalls_struct_map:
  "indirect val = Some (VStruct n p fs) \<Longrightarrow>
     checkAllTagsCalls cfg (NMap mm) val key
       = (NMap mm, val, key)
         # concat (map (\<lambda>(k, m).
             if skipTag (skiptags cfg) key k then []
             else (case tagFields fs Map.empty k of
                     None \<Rightarrow> []
                   | Some spec \<Rightarrow> checkAllTagsCalls cfg m (ts_val spec) (tkeyOf key k))) mm)"
  by (subst checkAllTagsCalls.simps) simp

lemma checkAllTagsCalls_struct_not_map:
  "indirect val = Some (VStruct n p fs) \<Longrightarrow> \<not> isMap mv \<Longrightarrow>
     checkAllTagsCalls cfg mv val key = [(mv, val, key)]"
  by (cases mv) (simp_all add: checkAllTagsCalls.simps)

lemma checkAllTagsCalls_other:
  "indirect val = Some v \<Longrightarrow> (\<forall>tn tp t. v \<noteq> VSlice tn tp t) \<Longrightarrow>
     (\<forall>n p fs. v \<noteq> VStruct n p fs) \<Longrightarrow>
     checkAllTagsCalls cfg mv val key = [(mv, val, key)]"
  by (cases v) (simp_all add: checkAllTagsCalls.simps)

lemma ownTags_nil: "indirect val = None \<Longrightarrow> ownTags cfg (mv, val, key) = []"
  by (simp add: ownTags_def)

lemma ownTags_slice:
  "indirect val = Some (VSlice tn tp t) \<Longrightarrow>
     ownTags cfg (mv, val, key) = (if isList mv then [] else [key])"
  by (simp add: ownTags_def)

lemma ownTags_struct_map:
  "indirect val = Some (VStruct n p fs) \<Longrightarrow>
     ownTags cfg (NMap mm, val, key)
       = concat (map (\<lambda>(k, m).
           if skipTag (skiptags cfg) key k then []
           else (case tagFields fs Map.empty k of
                   None \<Rightarrow> [tkeyOf key k]
                 | Some spec \<Rightarrow> [])) mm)"
  by (simp add: ownTags_def)

lemma ownTags_struct_not_map:
  "indirect val = Some (VStruct n p fs) \<Longrightarrow> \<not> isMap mv \<Longrightarrow> ownTags cfg (mv, val, key) = [key]"
  by (cases mv) (simp_all add: ownTags_def)

lemma ownTags_other:
  "indirect val = Some v \<Longrightarrow> (\<forall>tn tp t. v \<noteq> VSlice tn tp t) \<Longrightarrow>
     (\<forall>n p fs. v \<noteq> VStruct n p fs) \<Longrightarrow> ownTags cfg (mv, val, key) = []"
  by (cases v) (simp_all add: ownTags_def)

lemma checkMembersFrom_nil: "indirect val = None \<Longrightarrow> checkMembersFrom cfg mv val cmem = []"
  by (simp add: checkMembersFrom.simps)

lemma checkMembersFrom_slice_list:
  "indirect val = Some (VSlice tn tp t) \<Longrightarrow>
     checkMembersFrom cfg (NList xs) val cmem
       = concat (map (\<lambda>sl. checkMembersFrom cfg sl (reflectNew (elemType t)) cmem) xs)"
  by (subst checkMembersFrom.simps) simp

lemma checkMembersFrom_slice_not_list:
  "indirect val = Some (VSlice tn tp t) \<Longrightarrow> \<not> isList mv \<Longrightarrow>
     checkMembersFrom cfg mv val cmem = checkMembersFrom cfg mv (reflectNew (elemType t)) cmem"
  by (subst checkMembersFrom.simps, cases mv) simp_all

lemma checkMembersFrom_struct_map:
  "indirect val = Some (VStruct n p fs) \<Longrightarrow>
     checkMembersFrom cfg (NMap mm) val cmem
       = concat (map (\<lambda>field.
           if skipMember (skipmembers cfg) cmem (lookupName field) then []
           else
             (if mkeysOf mm (lookupName field) = None
                 \<and> (\<not> fs_omitempty field \<or> \<not> omitemptyOK cfg)
              then [(AbsentField, joinPath cmem (lookupName field))] else [])
             @ checkMembersFrom cfg
                 (case mkeysOf mm (lookupName field) of None \<Rightarrow> NNil | Some v \<Rightarrow> v)
                 (fs_val field) (joinPath cmem (lookupName field)))
           (memberFields fs))"
  by (subst checkMembersFrom.simps) (simp add: Let_def)

lemma checkMembersFrom_struct_not_map:
  "indirect val = Some (VStruct n p fs) \<Longrightarrow> \<not> isMap mv \<Longrightarrow>
     checkMembersFrom cfg mv val cmem = [(NotAMap, cmem @ n)]"
  by (cases mv) (simp_all add: checkMembersFrom.simps)

lemma checkMembersFrom_other:
  "indirect val = Some v \<Longrightarrow> (\<forall>tn tp t. v \<noteq> VSlice tn tp t) \<Longrightarrow> (\<forall>n p fs. v \<noteq> VStruct n p fs) \<Longrightarrow>
     checkMembersFrom cfg mv val cmem = []"
  by (cases v) (simp_all add: checkMembersFrom.simps)

text \<open>The values that the walks descend into are smaller in the measure.\<close>

lemma slice_descends: "indirect val = Some (VSlice tn tp t) \<Longrightarrow> vsz (reflectNew (elemType t)) < vsz val"
  using vsz_indirect [of val "VSlice tn tp t"] vsz_reflectNew [of t] by simp

lemma member_descends:
  assumes "indirect val = Some (VStruct n p fs)" and "field \<in> set (memberFields fs)"
  shows "vsz (fs_val field) < vsz val"
proof -
  obtain f where "f \<in> set fs" "fs_val field = fieldVal f"
    using memberFields_val [OF assms(2)] by blast
  then show ?thesis
    using vsz_indirect [OF assms(1)] vsz_field [of f fs n p] by simp
qed

lemma tag_descends:
  assumes "indirect val = Some (VStruct n p fs)" and "tagFields fs Map.empty k = Some spec"
  shows "vsz (ts_val spec) < vsz val"
proof -
  obtain f where "f \<in> set fs" "ts_val spec = fieldVal f"
    using tagFields_val [OF assms(2)] by auto
  then show ?thesis
    using vsz_indirect [OF assms(1)] vsz_field [of f fs n p] by simp
qed

section \<open>The value-casting toggle\<close>

text \<open>
  Claim C10. Called with no argument, \<open>SetMxjCast\<close> should toggle the casting flag and
  return; called with an argument, it sets the flag to that argument. The second half
  holds. With no argument the function toggles the flag and then indexes the empty
  argument slice: the call panics instead of returning.
\<close>

theorem SetMxjCast_no_argument_panics:
  "SetMxjCast [] cfg = Inl (IndexOutOfRange, cfg\<lparr>mxjCast := \<not> mxjCast cfg\<rparr>)
   \<and> SetMxjCast (b # bs) cfg = Inr (cfg\<lparr>mxjCast := b\<rparr>)"
  by (simp add: SetMxjCast_def)

section \<open>Concrete scenarios\<close>

text \<open>
  Claim C2. For the document \<open><doc><e1>test</e1></doc>\<close>, decoded to the map
  \<open>{"doc": {"e1": "test"}}\<close>, and the struct with the string fields tagged \<open>e1\<close> and
  \<open>e2\<close>, \<open>MissingXMLTags\<close> should return \<open>["e2"]\<close>, the root \<open>"doc"\<close> and no
  error. The entries and the error are as claimed, but the root returned is the empty
  string: the \<open>range\<close> statement of \<open>MissingXMLTags\<close> discards the key.
  \<open>MissingXMLTagsMap\<close>, which keeps it, returns \<open>"doc"\<close>.
\<close>

theorem MissingXMLTags_doc1_root_empty:
  "MissingXMLTags initial (Inr [(''doc'', NMap [(''e1'', NScalar ''test'')])]) doc1
     = ([''e2''], [], None)
   \<and> MissingXMLTagsMap initial (Inr [(''doc'', NMap [(''e1'', NScalar ''test'')])]) doc1
     = ([''e2''], [(''doc'', NMap [(''e1'', NScalar ''test'')])], ''doc'', None)"
  by code_simp

text \<open>
  Claim C1. A field declared as a slice, for which the document holds a single
  occurrence of the element (decoded to a scalar or a map, not to a list), should be
  neither missing nor unknown. For \<open><yy><xx>1</xx></yy>\<close> and the struct \<open>Y\<close> with
  \<open>Property []string `xml:"xx"`\<close>, the missing-seeking walk reports nothing, but the
  unknown-seeking walk reports \<open>xx\<close>: it does not wrap a value that is not a list.
\<close>

theorem UnknownXMLTags_singleton_reported:
  "UnknownXMLTags initial (Inr [(''yy'', NMap [(''xx'', NScalar ''1'')])]) Y
     = ([''xx''], ''yy'', None)
   \<and> fst (MissingXMLTags initial (Inr [(''yy'', NMap [(''xx'', NScalar ''1'')])]) Y) = []"
  by code_simp

section \<open>Nodes that are not maps\<close>

text \<open>
  Claim C3. In the missing-seeking walk, a node that is not a map where a struct is
  expected should be recorded as the current path, a dot and the name of the struct type
  (the type name alone at the root), after which the walk of the branch stops. The
  walk does stop there, with a single entry, but that entry is the path followed by the
  type name with no dot between them: for \<open><more>text</more>\<close> against a field
  \<open>More test2 `xml:"more"`\<close> the entry is \<open>moretest2\<close>, not \<open>more.test2\<close>.
\<close>

theorem checkMembers_not_map_no_separator:
  "MissingXMLTags initial
     (Inr [(''doc'', NMap [(''ok'', NScalar ''true''), (''why'', NScalar ''w''),
                           (''more'', NScalar ''text'')])]) test
     = ([''moretest2''], [], None)
   \<and> checkMembers cfg (NScalar x) (VStruct n p fs) cmem = [cmem @ n]"
  by (rule conjI, code_simp, simp add: checkMembers.simps)

subsection \<open>The paths of the calls of the unknown-seeking walk\<close>

lemma tkeyOf_nonempty: "key \<noteq> [] \<or> k \<noteq> [] \<Longrightarrow> tkeyOf key k \<noteq> []"
  by (auto simp: tkeyOf_def)

lemma checkAllTagsCalls_keys_below:
  "(mv', val', key') \<in> set (checkAllTagsCalls cfg mv val key) \<Longrightarrow> key \<noteq> [] \<Longrightarrow> key' \<noteq> []"
proof (induction "vsz val" arbitrary: val mv key rule: less_induct)
  case less
  show ?case
  proof (cases "indirect val")
    case None
    then show ?thesis using less.prems by (simp add: checkAllTagsCalls_nil)
  next
    case (Some v)
    show ?thesis
    proof (cases v)
      case (VSlice tn tp t)
      with Some have ind: "indirect val = Some (VSlice tn tp t)" by simp
      show ?thesis
      proof (cases "isList mv")
        case True
        then obtain xs where xs: "mv = NList xs" by (cases mv) auto
        from less.prems(1) consider "key' = key"
          | sl where "sl \<in> set xs"
              "(mv', val', key') \<in> set (checkAllTagsCalls cfg sl (reflectNew (elemType t)) key)"
          unfolding xs checkAllTagsCalls_slice_list [OF ind] by auto
        then show ?thesis
        proof cases
          case 1
          then show ?thesis using less.prems(2) by simp
        next
          case 2
          show ?thesis using less.hyps [OF slice_descends [OF ind] 2(2) less.prems(2)] .
        qed
      next
        case False
        then show ?thesis using less.prems by (simp add: checkAllTagsCalls_slice_not_list [OF ind])
      qed
    next
      case (VStruct n p fs)
      with Some have ind: "indirect val = Some (VStruct n p fs)" by simp
      show ?thesis
      proof (cases "isMap mv")
        case False
        then show ?thesis using less.prems by (simp add: checkAllTagsCalls_struct_not_map [OF ind])
      next
        case True
        then obtain mm where mm: "mv = NMap mm" by (cases mv) auto
        from less.prems(1) consider "key' = key"
          | k m spec where "(k, m) \<in> set mm" "tagFields fs Map.empty k = Some spec"
              "(mv', val', key') \<in> set (checkAllTagsCalls cfg m (ts_val spec) (tkeyOf key k))"
          unfolding mm checkAllTagsCalls_struct_map [OF ind]
          by (auto split: if_splits option.splits) metis
        then show ?thesis
        proof cases
          case 1
          then show ?thesis using less.prems(2) by simp
        next
          case 2
          have "tkeyOf key k \<noteq> []" using less.prems(2) by (simp add: tkeyOf_nonempty)
          then show ?thesis using less.hyps [OF tag_descends [OF ind 2(2)] 2(3)] by simp
        qed
      qed
    qed (use less.prems in \<open>simp_all add: checkAllTagsCalls_other [OF Some]\<close>)
  qed
qed

lemma checkAllTagsCalls_root_map:
  assumes "(mv', val', key') \<in> set (checkAllTagsCalls cfg (NMap vv) val [])"
    and "[] \<notin> fst ` set vv"
  shows "(mv', val', key') = (NMap vv, val, []) \<or> key' \<noteq> []"
proof (cases "indirect val")
  case None
  then show ?thesis using assms(1) by (simp add: checkAllTagsCalls_nil)
next
  case (Some v)
  show ?thesis
  proof (cases v)
    case (VSlice tn tp t)
    with Some have ind: "indirect val = Some (VSlice tn tp t)" by simp
    show ?thesis using assms(1) by (simp add: checkAllTagsCalls_slice_not_list [OF ind])
  next
    case (VStruct n p fs)
    with Some have ind: "indirect val = Some (VStruct n p fs)" by simp
    from assms(1) consider "(mv', val', key') = (NMap vv, val, [])"
      | k m spec where "(k, m) \<in> set vv" "tagFields fs Map.empty k = Some spec"
          "(mv', val', key') \<in> set (checkAllTagsCalls cfg m (ts_val spec) (tkeyOf [] k))"
      unfolding checkAllTagsCalls_struct_map [OF ind]
      by (auto split: if_splits option.splits) metis
    then show ?thesis
    proof cases
      case 1
      then show ?thesis by simp
    next
      case 2
      have "k \<noteq> []" using 2(1) assms(2) by force
      then have "tkeyOf [] k \<noteq> []" by (simp add: tkeyOf_nonempty)
      then show ?thesis using checkAllTagsCalls_keys_below [OF 2(3)] by simp
    qed
  qed (use assms(1) in \<open>simp_all add: checkAllTagsCalls_other [OF Some]\<close>)
qed

lemma mset_concat_split:
  "(\<And>x. x \<in> set xs \<Longrightarrow> mset (f x) = mset (g x) + mset (h x)) \<Longrightarrow>
     mset (concat (map f xs)) = mset (concat (map g xs)) + mset (concat (map h xs))"
  by (induction xs) simp_all

lemma concat_map_concat_map:
  "concat (map f (concat (map g xs))) = concat (map (\<lambda>x. concat (map f (g x))) xs)"
  by (induction xs) simp_all

lemma checkAllTags_by_calls:
  "mset (checkAllTags cfg mv val key)
     = mset (concat (map (ownTags cfg) (checkAllTagsCalls cfg mv val key)))"
proof (induction "vsz val" arbitrary: val mv key rule: less_induct)
  case less
  show ?case
  proof (cases "indirect val")
    case None
    then show ?thesis by (simp add: checkAllTagsCalls_nil checkAllTags_nil ownTags_nil)
  next
    case (Some v)
    show ?thesis
    proof (cases v)
      case (VSlice tn tp t)
      with Some have ind: "indirect val = Some (VSlice tn tp t)" by simp
      show ?thesis
      proof (cases "isList mv")
        case True
        then obtain xs where xs: "mv = NList xs" by (cases mv) auto
        have "mset (concat (map (\<lambda>sl. checkAllTags cfg sl (reflectNew (elemType t)) key) xs))
                = mset (concat (map (\<lambda>sl. concat (map (ownTags cfg)
                     (checkAllTagsCalls cfg sl (reflectNew (elemType t)) key))) xs))"
          using less.hyps [OF slice_descends [OF ind]] by (induction xs) simp_all
        then show ?thesis
          unfolding xs checkAllTags_slice_list [OF ind] checkAllTagsCalls_slice_list [OF ind]
          by (simp add: ownTags_slice [OF ind] concat_map_concat_map)
      next
        case False
        then show ?thesis
          by (simp add: checkAllTags_slice_not_list [OF ind] checkAllTagsCalls_slice_not_list [OF ind]
              ownTags_slice [OF ind])
      qed
    next
      case (VStruct n p fs)
      with Some have ind: "indirect val = Some (VStruct n p fs)" by simp
      show ?thesis
      proof (cases "isMap mv")
        case False
        then show ?thesis
          by (simp add: checkAllTags_not_map [OF ind] checkAllTagsCalls_struct_not_map [OF ind]
              ownTags_struct_not_map [OF ind])
      next
        case True
        then obtain mm where mm: "mv = NMap mm" by (cases mv) auto
        let ?own = "\<lambda>(k, m). if skipTag (skiptags cfg) key k then []
           else (case tagFields fs Map.empty k of
                   None \<Rightarrow> [tkeyOf key k]
                 | Some spec \<Rightarrow> [])"
        let ?sub = "\<lambda>(k, m). if skipTag (skiptags cfg) key k then []
             else (case tagFields fs Map.empty k of
                     None \<Rightarrow> []
                   | Some spec \<Rightarrow> checkAllTagsCalls cfg m (ts_val spec) (tkeyOf key k))"
        have turn: "mset (tagTurn cfg (tagFields fs Map.empty) key kv)
                      = mset (?own kv) + mset (concat (map (ownTags cfg) (?sub kv)))" for kv
        proof (cases kv)
          case (Pair k m)
          show ?thesis
          proof (cases "tagFields fs Map.empty k")
            case None
            then show ?thesis by (simp add: Pair tagTurn_def)
          next
            case (Some spec)
            then show ?thesis
              using less.hyps [OF tag_descends [OF ind Some], of m "tkeyOf key k"]
              by (simp add: Pair tagTurn_def)
          qed
        qed
        have "mset (concat (map (tagTurn cfg (tagFields fs Map.empty) key) mm))
                = mset (concat (map ?own mm))
                  + mset (concat (map (\<lambda>kv. concat (map (ownTags cfg) (?sub kv))) mm))"
          by (rule mset_concat_split) (rule turn)
        then show ?thesis
          unfolding mm checkAllTags_struct_map [OF ind] checkAllTagsCalls_struct_map [OF ind]
          by (simp add: ownTags_struct_map [OF ind] concat_map_concat_map)
      qed
    qed (simp_all add: checkAllTagsCalls_other [OF Some] checkAllTags_other [OF Some] ownTags_other [OF Some])
  qed
qed

text \<open>
  Claim C8. In the unknown-seeking walk, a node that is not a map where a struct is
  expected is recorded as the current path (or as the root name when the path is empty),
  and nothing else is recorded for that node. \<open>UnknownXMLTags\<close> enters the walk
  with the root value, a map, and the empty path; the keys of that map, tags of the
  document, are not empty. The entries of the walk are those that its calls append
  themselves. A call that meets a struct with a node that is not a map has a path that
  is not empty; it appends that path as its single entry and makes no further call. The
  case of the empty path, where the root name would stand, does not arise.
\<close>

theorem checkAllTags_struct_not_map_path:
  "firstPair m = (root, NMap vv) \<Longrightarrow> [] \<notin> fst ` set vv \<Longrightarrow>
   (mv, w, key) \<in> set (checkAllTagsCalls cfg (NMap vv) val []) \<Longrightarrow>
   indirect w = Some (VStruct n p fs) \<Longrightarrow> \<not> isMap mv \<Longrightarrow>
     fst (UnknownXMLTags cfg (Inr m) val) = checkAllTags cfg (NMap vv) val []
     \<and> mset (checkAllTags cfg (NMap vv) val [])
         = mset (concat (map (ownTags cfg) (checkAllTagsCalls cfg (NMap vv) val [])))
     \<and> key \<noteq> []
     \<and> checkAllTags cfg mv w key = [if key = [] then root else key]
     \<and> ownTags cfg (mv, w, key) = [if key = [] then root else key]
     \<and> checkAllTagsCalls cfg mv w key = [(mv, w, key)]"
proof (intro conjI)
  assume m: "firstPair m = (root, NMap vv)" and vv: "[] \<notin> fst ` set vv"
    and call: "(mv, w, key) \<in> set (checkAllTagsCalls cfg (NMap vv) val [])"
    and w: "indirect w = Some (VStruct n p fs)" and mv: "\<not> isMap mv"
  show "fst (UnknownXMLTags cfg (Inr m) val) = checkAllTags cfg (NMap vv) val []"
    using m by (simp add: UnknownXMLTags_def)
  show "mset (checkAllTags cfg (NMap vv) val [])
         = mset (concat (map (ownTags cfg) (checkAllTagsCalls cfg (NMap vv) val [])))"
    by (rule checkAllTags_by_calls)
  show key: "key \<noteq> []"
    using checkAllTagsCalls_root_map [OF call vv] mv by auto
  show "checkAllTags cfg mv w key = [if key = [] then root else key]"
    using key by (simp add: checkAllTags_not_map [OF w mv])
  show "ownTags cfg (mv, w, key) = [if key = [] then root else key]"
    using key by (simp add: ownTags_struct_not_map [OF w mv])
  show "checkAllTagsCalls cfg mv w key = [(mv, w, key)]"
    by (rule checkAllTagsCalls_struct_not_map [OF w mv])
qed

text \<open>
  The document \<open><doc><ok>true</ok><more>text</more></doc>\<close> against the struct
  \<open>test\<close>: the call for \<open>more\<close> meets the struct \<open>test2\<close> with a scalar.
\<close>

theorem checkAllTags_struct_not_map_path_witness:
  "firstPair [(''doc'', NMap [(''ok'', NScalar ''true''), (''more'', NScalar ''text'')])]
     = (''doc'', NMap [(''ok'', NScalar ''true''), (''more'', NScalar ''text'')])
   \<and> [] \<notin> fst ` set [(''ok'', NScalar ''true''), (''more'', NScalar ''text'')]
   \<and> (NScalar ''text'', test2, ''more'')
       \<in> set (checkAllTagsCalls initial
                 (NMap [(''ok'', NScalar ''true''), (''more'', NScalar ''text'')]) test [])
   \<and> indirect test2 = Some test2 \<and> \<not> isMap (NScalar ''text'')
   \<and> fst (UnknownXMLTags initial
        (Inr [(''doc'', NMap [(''ok'', NScalar ''true''), (''more'', NScalar ''text'')])]) test)
       = [''more'']
   \<and> checkAllTags initial (NScalar ''text'') test2 ''more'' = [''more'']"
proof -
  let ?vv = "[(''ok'', NScalar ''true''), (''more'', NScalar ''text'')]"
  have h1: "firstPair [(''doc'', NMap ?vv)] = (''doc'', NMap ?vv)"
    by (simp add: firstPair_def)
  have h2: "[] \<notin> fst ` set ?vv" by simp
  have h3: "(NScalar ''text'', test2, ''more'')
       \<in> set (checkAllTagsCalls initial (NMap ?vv) test [])"
    by code_simp
  have h4: "indirect test2 = Some (VStruct ''test2'' ''checkxml''
     [VField ''Why'' [] [] goString, VField ''Not'' [] [] goString,
      VField ''Another'' [] [] test3])"
    by (simp add: test2_def)
  have h5: "\<not> isMap (NScalar ''text'')" by simp
  have u: "fst (UnknownXMLTags initial (Inr [(''doc'', NMap ?vv)]) test) = [''more'']"
    by code_simp
  from checkAllTags_struct_not_map_path [OF h1 h2 h3 h4 h5] h1 h2 h3 h4 h5 u
  show ?thesis by (simp add: test2_def)
qed

section \<open>Errors of the entry points\<close>

text \<open>
  Claim C7, as stated: when the root value is neither a map nor a list, both entry
  points return the "no elements" error together with an empty root name. For
  \<open><doc></doc>\<close>, whose root value is the empty string, \<open>UnknownXMLTags\<close> returns the
  error with the root name \<open>doc\<close>, and \<open>MissingXMLTags\<close> returns no error at all: its
  result is the name of the struct type, as \<open>TestMissingXMLTags\<close> expects.
\<close>

theorem no_elements_counterexample:
  "UnknownXMLTags initial (Inr [(''doc'', NScalar [])]) test = ([], ''doc'', Some NoElements)
   \<and> fst (MissingXMLTags initial (Inr [(''doc'', NScalar [])]) test) = [''test'']
   \<and> snd (snd (MissingXMLTags initial (Inr [(''doc'', NScalar [])]) test)) = None"
  by code_simp

text \<open>
  Claim C7, amended: when the root value is neither a map nor a list,
  \<open>UnknownXMLTags\<close> returns no entry, the root name and the "no elements" error, while
  \<open>MissingXMLTags\<close> returns no error and the name of the type of the value passed as its
  single entry. Once the document has been decoded, "no elements" from
  \<open>UnknownXMLTags\<close> in exactly that case is the only error of either entry point.
\<close>

theorem entry_points_root_not_map_nor_list:
  "\<not> isMap v \<Longrightarrow> \<not> isList v \<Longrightarrow>
     UnknownXMLTags cfg (Inr ((root, v) # rest)) val = ([], root, Some NoElements)
     \<and> fst (MissingXMLTags cfg (Inr ((root, v) # rest)) val) = [tyName val]
     \<and> snd (snd (MissingXMLTags cfg (Inr m) val)) = None
     \<and> snd (snd (UnknownXMLTags cfg (Inr m) val))
         = (if isMap (firstValue m) \<or> isList (firstValue m) then None else Some NoElements)"
proof (intro conjI)
  assume v: "\<not> isMap v" "\<not> isList v"
  then show "UnknownXMLTags cfg (Inr ((root, v) # rest)) val = ([], root, Some NoElements)"
    by (cases v) (simp_all add: UnknownXMLTags_def firstPair_def)
  from v show "fst (MissingXMLTags cfg (Inr ((root, v) # rest)) val) = [tyName val]"
    by (cases v) (simp_all add: MissingXMLTags_def firstValue_def)
  show "snd (snd (MissingXMLTags cfg (Inr m) val)) = None"
    by (simp add: MissingXMLTags_def Let_def split: node.splits)
  show "snd (snd (UnknownXMLTags cfg (Inr m) val))
          = (if isMap (firstValue m) \<or> isList (firstValue m) then None else Some NoElements)"
    by (cases m; cases "firstValue m")
       (auto simp: UnknownXMLTags_def firstPair_def firstValue_def split: node.splits)
qed

theorem entry_points_root_not_map_nor_list_witness:
  "\<not> isMap (NScalar []) \<and> \<not> isList (NScalar [])
   \<and> UnknownXMLTags initial (Inr [(''doc'', NScalar [])]) test = ([], ''doc'', Some NoElements)
   \<and> fst (MissingXMLTags initial (Inr [(''doc'', NScalar [])]) test) = [''test'']
   \<and> fst (MissingXMLTags initial (Inr [(''doc'', NScalar [])])
        (VSlice ''docs'' ''checkxml'' (TStruct ''doc1'' ''checkxml'' []))) = [''docs'']"
  using entry_points_root_not_map_nor_list [of "NScalar []" initial "''doc''" "[]" test]
    entry_points_root_not_map_nor_list [of "NScalar []" initial "''doc''" "[]"
      "VSlice ''docs'' ''checkxml'' (TStruct ''doc1'' ''checkxml'' [])"]
  by (simp add: test_def)

section \<open>The ignore list of the missing-seeking walk\<close>

lemma skipMember_iff:
  "skipMember sms cmem fn \<longleftrightarrow>
     (\<exists>sm \<in> set sms. sm_depth sm = cmemdepth cmem \<and> sm_val sm = joinPath cmem fn)"
  by (induction sms) (auto simp: joinPath_def)

lemma skipMember_SetMembersToIgnore:
  "skipMember (skipmembers (SetMembersToIgnore s cfg)) cmem fn \<longleftrightarrow>
     joinPath cmem fn \<in> set s
     \<and> length (split CHR ''.'' (joinPath cmem fn)) = cmemdepth cmem"
  by (auto simp: skipMember_iff SetMembersToIgnore_def)

lemma omitemptyOK_SetMembersToIgnore:
  "omitemptyOK (SetMembersToIgnore s cfg) = omitemptyOK cfg"
  by (simp add: SetMembersToIgnore_def)

lemma skipMember_ignoredMember:
  "skipMember (skipmembers (SetMembersToIgnore s cfg)) cmem fn = ignoredMember s cmem fn"
  by (simp add: skipMember_SetMembersToIgnore ignoredMember_def)

lemma skipMember_cleared:
  "\<not> skipMember (skipmembers (SetMembersToIgnore [] cfg)) cmem fn"
  by (simp add: skipMember_SetMembersToIgnore)

lemma joinPath_prefix: "\<exists>r. joinPath cmem fn = cmem @ r"
  by (simp add: joinPath_def)

lemma checkMembers_prefix:
  "e \<in> set (checkMembers cfg mv val cmem) \<Longrightarrow> \<exists>r. e = cmem @ r"
proof (induction "vsz val" arbitrary: val mv cmem rule: less_induct)
  case less
  show ?case
  proof (cases "indirect val")
    case None
    then show ?thesis using less.prems by (simp add: checkMembers_nil)
  next
    case (Some v)
    show ?thesis
    proof (cases v)
      case (VSlice tn tp t)
      with Some have ind: "indirect val = Some (VSlice tn tp t)" by simp
      show ?thesis
      proof (cases "isList mv")
        case True
        then obtain xs where xs: "mv = NList xs" by (cases mv) auto
        from less.prems obtain sl where
          "e \<in> set (checkMembers cfg sl (reflectNew (elemType t)) cmem)"
          unfolding xs checkMembers_slice_list [OF ind] by auto
        then show ?thesis by (rule less.hyps [OF slice_descends [OF ind]])
      next
        case False
        from less.prems have "e \<in> set (checkMembers cfg mv (reflectNew (elemType t)) cmem)"
          by (simp add: checkMembers_slice_not_list [OF ind False])
        then show ?thesis by (rule less.hyps [OF slice_descends [OF ind]])
      qed
    next
      case (VStruct n p fs)
      with Some have ind: "indirect val = Some (VStruct n p fs)" by simp
      show ?thesis
      proof (cases "isMap mv")
        case False
        then show ?thesis using less.prems by (simp add: checkMembers_struct_not_map [OF ind])
      next
        case True
        then obtain mm where mm: "mv = NMap mm" by (cases mv) auto
        from less.prems obtain field where field: "field \<in> set (memberFields fs)"
          and e: "e \<in> set (memberTurn cfg mm cmem field)"
          unfolding mm checkMembers_struct_map [OF ind] by auto
        from e consider "e = joinPath cmem (lookupName field)"
          | "e \<in> set (checkMembers cfg
                (case mkeysOf mm (lookupName field) of None \<Rightarrow> NNil | Some v \<Rightarrow> v)
                (fs_val field) (joinPath cmem (lookupName field)))"
          by (auto simp: memberTurn_def Let_def split: if_splits)
        then show ?thesis
        proof cases
          case 1
          then show ?thesis using joinPath_prefix [of cmem "lookupName field"] by simp
        next
          case 2
          from less.hyps [OF member_descends [OF ind field] 2]
          obtain r where "e = joinPath cmem (lookupName field) @ r" by blast
          then show ?thesis using joinPath_prefix [of cmem "lookupName field"] by auto
        qed
      qed
    qed (use less.prems in \<open>simp_all add: checkMembers_other [OF Some]\<close>)
  qed
qed

lemma memberTurn_ignore:
  "memberTurn (SetMembersToIgnore s cfg) mm cmem field =
     (if ignoredMember s cmem (lookupName field) then []
      else
        (if mkeysOf mm (lookupName field) = None
            \<and> (\<not> fs_omitempty field \<or> \<not> omitemptyOK cfg)
         then [joinPath cmem (lookupName field)] else [])
        @ checkMembers (SetMembersToIgnore s cfg)
            (case mkeysOf mm (lookupName field) of None \<Rightarrow> NNil | Some v \<Rightarrow> v)
            (fs_val field) (joinPath cmem (lookupName field)))"
  by (simp add: memberTurn_def Let_def skipMember_ignoredMember
      omitemptyOK_SetMembersToIgnore)

lemma memberTurn_cleared:
  "memberTurn (SetMembersToIgnore [] cfg) mm cmem field =
        (if mkeysOf mm (lookupName field) = None
            \<and> (\<not> fs_omitempty field \<or> \<not> omitemptyOK cfg)
         then [joinPath cmem (lookupName field)] else [])
        @ checkMembers (SetMembersToIgnore [] cfg)
            (case mkeysOf mm (lookupName field) of None \<Rightarrow> NNil | Some v \<Rightarrow> v)
            (fs_val field) (joinPath cmem (lookupName field))"
  by (simp add: memberTurn_ignore ignoredMember_def)

lemma checkMembers_ignore_removes:
  "set (checkMembers (SetMembersToIgnore s cfg) mv val cmem)
     \<subseteq> set (checkMembers (SetMembersToIgnore [] cfg) mv val cmem)"
proof (induction "vsz val" arbitrary: val mv cmem rule: less_induct)
  case less
  let ?S = "SetMembersToIgnore s cfg" and ?E = "SetMembersToIgnore [] cfg"
  show ?case
  proof (cases "indirect val")
    case None
    then show ?thesis by (simp add: checkMembers_nil)
  next
    case (Some v)
    show ?thesis
    proof (cases v)
      case (VSlice tn tp t)
      with Some have ind: "indirect val = Some (VSlice tn tp t)" by simp
      show ?thesis
      proof (cases "isList mv")
        case True
        then obtain xs where xs: "mv = NList xs" by (cases mv) auto
        show ?thesis
          unfolding xs checkMembers_slice_list [OF ind]
          using less.hyps [OF slice_descends [OF ind]] by auto
      next
        case False
        show ?thesis
          unfolding checkMembers_slice_not_list [OF ind False]
          by (rule less.hyps [OF slice_descends [OF ind]])
      qed
    next
      case (VStruct n p fs)
      with Some have ind: "indirect val = Some (VStruct n p fs)" by simp
      show ?thesis
      proof (cases "isMap mv")
        case False
        then show ?thesis by (simp add: checkMembers_struct_not_map [OF ind])
      next
        case True
        then obtain mm where mm: "mv = NMap mm" by (cases mv) auto
        have "set (memberTurn ?S mm cmem field) \<subseteq> set (memberTurn ?E mm cmem field)"
          if "field \<in> set (memberFields fs)" for field
          using less.hyps [OF member_descends [OF ind that]]
          unfolding memberTurn_cleared unfolding memberTurn_ignore by auto
        then show ?thesis
          unfolding mm checkMembers_struct_map [OF ind] by auto
      qed
    qed (simp_all add: checkMembers_other [OF Some])
  qed
qed

lemma checkMembers_ignore_removed:
  "e \<in> set (checkMembers (SetMembersToIgnore [] cfg) mv val cmem) \<Longrightarrow>
   e \<notin> set (checkMembers (SetMembersToIgnore s cfg) mv val cmem) \<Longrightarrow>
     \<exists>c fn r. ignoredMember s c fn \<and> e = joinPath c fn @ r"
proof (induction "vsz val" arbitrary: val mv cmem rule: less_induct)
  case less
  let ?S = "SetMembersToIgnore s cfg" and ?E = "SetMembersToIgnore [] cfg"
  show ?case
  proof (cases "indirect val")
    case None
    then show ?thesis using less.prems by (simp add: checkMembers_nil)
  next
    case (Some v)
    show ?thesis
    proof (cases v)
      case (VSlice tn tp t)
      with Some have ind: "indirect val = Some (VSlice tn tp t)" by simp
      show ?thesis
      proof (cases "isList mv")
        case True
        then obtain xs where xs: "mv = NList xs" by (cases mv) auto
        from less.prems obtain sl where "sl \<in> set xs"
          "e \<in> set (checkMembers ?E sl (reflectNew (elemType t)) cmem)"
          "e \<notin> set (checkMembers ?S sl (reflectNew (elemType t)) cmem)"
          unfolding xs checkMembers_slice_list [OF ind] by auto
        then show ?thesis using less.hyps [OF slice_descends [OF ind]] by blast
      next
        case False
        from less.prems have
          "e \<in> set (checkMembers ?E mv (reflectNew (elemType t)) cmem)"
          "e \<notin> set (checkMembers ?S mv (reflectNew (elemType t)) cmem)"
          by (simp_all add: checkMembers_slice_not_list [OF ind False])
        then show ?thesis using less.hyps [OF slice_descends [OF ind]] by blast
      qed
    next
      case (VStruct n p fs)
      with Some have ind: "indirect val = Some (VStruct n p fs)" by simp
      show ?thesis
      proof (cases "isMap mv")
        case False
        then show ?thesis using less.prems by (simp add: checkMembers_struct_not_map [OF ind])
      next
        case True
        then obtain mm where mm: "mv = NMap mm" by (cases mv) auto
        from less.prems obtain field where field: "field \<in> set (memberFields fs)"
          and e: "e \<in> set (memberTurn ?E mm cmem field)"
          and ne: "e \<notin> set (memberTurn ?S mm cmem field)"
          unfolding mm checkMembers_struct_map [OF ind] by auto
        let ?fn = "lookupName field"
        let ?child = "case mkeysOf mm ?fn of None \<Rightarrow> NNil | Some v \<Rightarrow> v"
        show ?thesis
        proof (cases "ignoredMember s cmem ?fn")
          case True
          from e consider "e = joinPath cmem ?fn"
            | "e \<in> set (checkMembers ?E ?child (fs_val field) (joinPath cmem ?fn))"
            unfolding memberTurn_cleared by (auto split: if_splits)
          then have "\<exists>r. e = joinPath cmem ?fn @ r"
          proof cases
            case 1
            then show ?thesis by simp
          next
            case 2
            then show ?thesis by (rule checkMembers_prefix)
          qed
          with True show ?thesis by blast
        next
          case False
          from e ne have
            "e \<in> set (checkMembers ?E ?child (fs_val field) (joinPath cmem ?fn))"
            "e \<notin> set (checkMembers ?S ?child (fs_val field) (joinPath cmem ?fn))"
            unfolding memberTurn_cleared unfolding memberTurn_ignore
            using False by (auto split: if_splits)
          then show ?thesis using less.hyps [OF member_descends [OF ind field]] by blast
        qed
      qed
    qed (use less.prems in \<open>simp_all add: checkMembers_other [OF Some]\<close>)
  qed
qed

text \<open>
  Claim C6, as stated: a field is excluded by the ignore list only when its full
  dot-path equals an entry of the list whose depth is the current depth. The turn of the
  loop that is cut short for a member on the list also holds the call that walks the
  value of the member. With the single entry \<open>more.Another\<close> and a document in which
  \<open>more.Another\<close> lacks \<open>something\<close>, the field \<open>more.Another.something\<close> is not
  reported, though no entry has its path; without the list it is.
\<close>

theorem ignored_subtree_counterexample:
  "fst (MissingXMLTags (SetMembersToIgnore [''more.Another''] initial)
     (Inr [(''doc'', NMap [(''ok'', NScalar ''true''), (''why'', NScalar ''w''),
        (''more'', NMap [(''Why'', NScalar ''a''), (''Not'', NScalar ''b''),
           (''Another'', NMap [(''else'', NScalar ''e'')])])])]) test) = []
   \<and> fst (MissingXMLTags initial
     (Inr [(''doc'', NMap [(''ok'', NScalar ''true''), (''why'', NScalar ''w''),
        (''more'', NMap [(''Why'', NScalar ''a''), (''Not'', NScalar ''b''),
           (''Another'', NMap [(''else'', NScalar ''e'')])])])]) test)
       = [''more.Another.something'']"
  by code_simp

text \<open>
  Claim C6, amended. With the ignore list set by \<open>SetMembersToIgnore s\<close>, the walk
  of a struct against a map passes over a member (it records nothing for the member and
  does not walk its value) exactly when the full dot-path of the member is one of the
  strings of \<open>s\<close> and the number of dot-segments of that string is the current depth:
  one at the root, the number of segments of the parent path plus one below it. Every
  other member is looked up, recorded when absent, and walked. The list only removes
  entries from the result of the walk with the list cleared, and every entry that it
  removes begins with the path of a member on the list: that of the field itself or of a
  member above it.
\<close>

theorem ignore_list_passes_over_members:
  "(indirect val = Some (VStruct n p fs) \<longrightarrow>
      checkMembers (SetMembersToIgnore s cfg) (NMap mm) val cmem
        = concat (map (\<lambda>field.
            if ignoredMember s cmem (lookupName field) then []
            else
              (if mkeysOf mm (lookupName field) = None
                  \<and> (\<not> fs_omitempty field \<or> \<not> omitemptyOK cfg)
               then [joinPath cmem (lookupName field)] else [])
              @ checkMembers (SetMembersToIgnore s cfg)
                  (case mkeysOf mm (lookupName field) of None \<Rightarrow> NNil | Some v \<Rightarrow> v)
                  (fs_val field) (joinPath cmem (lookupName field)))
            (memberFields fs)))
   \<and> set (checkMembers (SetMembersToIgnore s cfg) mv val cmem)
       \<subseteq> set (checkMembers (SetMembersToIgnore [] cfg) mv val cmem)
   \<and> (\<forall>e \<in> set (checkMembers (SetMembersToIgnore [] cfg) mv val cmem)
            - set (checkMembers (SetMembersToIgnore s cfg) mv val cmem).
        \<exists>c fn r. ignoredMember s c fn \<and> e = joinPath c fn @ r)"
proof -
  have turns: "indirect val = Some (VStruct n p fs) \<longrightarrow>
      checkMembers (SetMembersToIgnore s cfg) (NMap mm) val cmem
        = concat (map (\<lambda>field.
            if ignoredMember s cmem (lookupName field) then []
            else
              (if mkeysOf mm (lookupName field) = None
                  \<and> (\<not> fs_omitempty field \<or> \<not> omitemptyOK cfg)
               then [joinPath cmem (lookupName field)] else [])
              @ checkMembers (SetMembersToIgnore s cfg)
                  (case mkeysOf mm (lookupName field) of None \<Rightarrow> NNil | Some v \<Rightarrow> v)
                  (fs_val field) (joinPath cmem (lookupName field)))
            (memberFields fs))"
    by (simp add: checkMembers_struct_map memberTurn_ignore [abs_def])
  have removes: "set (checkMembers (SetMembersToIgnore s cfg) mv val cmem)
       \<subseteq> set (checkMembers (SetMembersToIgnore [] cfg) mv val cmem)"
    by (rule checkMembers_ignore_removes)
  have removed: "\<forall>e \<in> set (checkMembers (SetMembersToIgnore [] cfg) mv val cmem)
            - set (checkMembers (SetMembersToIgnore s cfg) mv val cmem).
        \<exists>c fn r. ignoredMember s c fn \<and> e = joinPath c fn @ r"
    using checkMembers_ignore_removed [of _ cfg mv val cmem s] by blast
  from turns removes removed show ?thesis by (intro conjI)
qed

text \<open>
  The entry \<open>more.Another\<close> removes \<open>more.Another.something\<close>. The entry
  \<open>Another\<close>, of depth one, does not match the member \<open>Another\<close> below \<open>more\<close>,
  and the entry \<open>a.b\<close>, of depth two, does not match a root member tagged \<open>a.b\<close>.
\<close>

theorem ignore_list_passes_over_members_witness:
  "indirect test = Some test
   \<and> checkMembers (SetMembersToIgnore [''more.Another''] initial)
        (NMap [(''ok'', NScalar ''true''), (''why'', NScalar ''w''),
           (''more'', NMap [(''Why'', NScalar ''a''), (''Not'', NScalar ''b''),
              (''Another'', NMap [(''else'', NScalar ''e'')])])]) test [] = []
   \<and> ''more.Another.something''
        \<in> set (checkMembers (SetMembersToIgnore [] initial)
            (NMap [(''ok'', NScalar ''true''), (''why'', NScalar ''w''),
               (''more'', NMap [(''Why'', NScalar ''a''), (''Not'', NScalar ''b''),
                  (''Another'', NMap [(''else'', NScalar ''e'')])])]) test [])
   \<and> (\<exists>c fn r. ignoredMember [''more.Another''] c fn
          \<and> ''more.Another.something'' = joinPath c fn @ r)
   \<and> ignoredMember [''more.Another''] ''more'' ''Another''
   \<and> \<not> ignoredMember [''Another''] ''more'' ''Another''
   \<and> \<not> ignoredMember [''a.b''] [] ''a.b''"
proof -
  let ?mm = "[(''ok'', NScalar ''true''), (''why'', NScalar ''w''),
           (''more'', NMap [(''Why'', NScalar ''a''), (''Not'', NScalar ''b''),
              (''Another'', NMap [(''else'', NScalar ''e'')])])]"
  have ind: "indirect test = Some test" by (simp add: test_def)
  have s: "checkMembers (SetMembersToIgnore [''more.Another''] initial) (NMap ?mm) test [] = []"
    by code_simp
  have e: "checkMembers (SetMembersToIgnore [] initial) (NMap ?mm) test []
             = [''more.Another.something'']"
    by code_simp
  have i: "ignoredMember [''more.Another''] ''more'' ''Another''
           \<and> \<not> ignoredMember [''Another''] ''more'' ''Another''
           \<and> \<not> ignoredMember [''a.b''] [] ''a.b''"
    by code_simp
  from ignore_list_passes_over_members [of test "''test''" "''checkxml''" _
      "[''more.Another'']" initial ?mm "[]" "NMap ?mm"]
  have "\<exists>c fn r. ignoredMember [''more.Another''] c fn
          \<and> ''more.Another.something'' = joinPath c fn @ r"
    unfolding s e by simp
  with ind s e i show ?thesis by simp
qed

section \<open>Fields tagged with the ignore sentinel\<close>

text \<open>
  Claim C5. A field tagged \<open>-\<close> should be matched under its declared name in the
  unknown-seeking walk, so that a document key equal to that name is never reported
  unknown, and should be passed over in the missing-seeking walk. The field is passed
  over in the missing-seeking walk, and the key is matched. But the unknown-seeking walk
  then goes into the value of the key with the type of the field, as for every matched
  key: for the field \<open>Why test2 `xml:"-"`\<close> and the document
  \<open><doc><Why>x</Why></doc>\<close>, where the value of \<open>Why\<close> is not a map, the path
  \<open>Why\<close> is recorded. When the value is a map, as in
  \<open>TestUnknownXMLTagsWithIgnoreTag\<close>, nothing is recorded for the key.
\<close>

theorem ignored_struct_field_reported:
  "UnknownXMLTags initial (Inr [(''doc'', NMap [(''Why'', NScalar ''x'')])]) ignoringStruct
     = ([''Why''], ''doc'', None)
   \<and> UnknownXMLTags initial
        (Inr [(''doc'', NMap [(''Why'', NMap [(''Maybe'', NScalar ''true'')])])])
        ignoringStruct
     = ([], ''doc'', None)
   \<and> fst (MissingXMLTags initial (Inr [(''doc'', NMap [(''Ok'', NScalar ''true'')])])
        ignoringStruct) = []"
  by code_simp

section \<open>Repeated calls\<close>

lemma sameDoc_isMap: "sameDoc a b \<Longrightarrow> isMap a = isMap b"
  by (cases a; cases b) simp_all

lemma sameDoc_isList: "sameDoc a b \<Longrightarrow> isList a = isList b"
  by (cases a; cases b) simp_all

lemma sameDoc_member:
  assumes "sameDoc (NMap kvs) (NMap kvs')" and "(k, v) \<in> set kvs"
  shows "\<exists>v'. map_of kvs' k = Some v' \<and> sameDoc v v'"
proof -
  from assms(1)
  have "list_all (\<lambda>(k, v). case map_of kvs' k of None \<Rightarrow> False | Some v' \<Rightarrow> sameDoc v v') kvs"
    by simp
  with assms(2) have "case map_of kvs' k of None \<Rightarrow> False | Some v' \<Rightarrow> sameDoc v v'"
    unfolding list_all_iff by blast
  then show ?thesis by (cases "map_of kvs' k") simp_all
qed

lemma sameDoc_keys:
  assumes "sameDoc (NMap kvs) (NMap kvs')"
  shows "set (map fst kvs) = set (map fst kvs')"
proof -
  have sub: "set (map fst kvs) \<subseteq> set (map fst kvs')"
  proof
    fix k assume "k \<in> set (map fst kvs)"
    then obtain v where "(k, v) \<in> set kvs" by auto
    then obtain v' where "map_of kvs' k = Some v'"
      using sameDoc_member [OF assms] by blast
    then have "(k, v') \<in> set kvs'" by (rule map_of_SomeD)
    then show "k \<in> set (map fst kvs')" by force
  qed
  have "distinct (map fst kvs)" "distinct (map fst kvs')" "length kvs = length kvs'"
    using assms by simp_all
  then have "card (set (map fst kvs)) = card (set (map fst kvs'))"
    using distinct_card [of "map fst kvs"] distinct_card [of "map fst kvs'"] by simp
  then show ?thesis using sub by (simp add: card_subset_eq)
qed

lemma fold_update_distinct:
  "distinct (map fst mm) \<Longrightarrow> fold (\<lambda>(k, v) m. m(k \<mapsto> v)) mm m0 = m0 ++ map_of mm"
proof (induction mm arbitrary: m0)
  case Nil
  then show ?case by simp
next
  case (Cons kv mm)
  obtain k v where kv: "kv = (k, v)" by (cases kv)
  have "k \<notin> dom (map_of mm)" using Cons.prems kv by (auto simp: dom_map_of_conv_image_fst)
  then have swap: "m0(k \<mapsto> v) ++ map_of mm = (m0 ++ map_of mm)(k \<mapsto> v)"
    by (auto simp: map_add_def fun_eq_iff split: option.splits)
  have "fold (\<lambda>(k, v) m. m(k \<mapsto> v)) (kv # mm) m0
          = fold (\<lambda>(k, v) m. m(k \<mapsto> v)) mm (m0(k \<mapsto> v))"
    by (simp add: kv)
  also have "\<dots> = m0(k \<mapsto> v) ++ map_of mm"
    using Cons.prems by (intro Cons.IH) simp
  also have "\<dots> = m0 ++ map_of (kv # mm)"
    by (simp add: swap kv)
  finally show ?case .
qed

lemma mkeysOf_distinct: "distinct (map fst mm) \<Longrightarrow> mkeysOf mm = map_of mm"
  by (simp add: mkeysOf_def fold_update_distinct)

lemma sameDoc_lookup:
  assumes "sameDoc (NMap kvs) (NMap kvs')"
  shows "(mkeysOf kvs k = None \<longleftrightarrow> mkeysOf kvs' k = None)
         \<and> sameDoc (case mkeysOf kvs k of None \<Rightarrow> NNil | Some v \<Rightarrow> v)
                    (case mkeysOf kvs' k of None \<Rightarrow> NNil | Some v \<Rightarrow> v)"
proof -
  have d: "distinct (map fst kvs)" "distinct (map fst kvs')" using assms by simp_all
  have keys: "set (map fst kvs) = set (map fst kvs')" by (rule sameDoc_keys [OF assms])
  show ?thesis
  proof (cases "map_of kvs k")
    case None
    then have "k \<notin> set (map fst kvs')" using keys by (simp add: map_of_eq_None_iff)
    then have "map_of kvs' k = None" by (simp add: map_of_eq_None_iff)
    with None show ?thesis by (simp add: mkeysOf_distinct d)
  next
    case (Some v)
    then have "(k, v) \<in> set kvs" by (rule map_of_SomeD)
    then obtain v' where "map_of kvs' k = Some v'" "sameDoc v v'"
      using sameDoc_member [OF assms] by blast
    with Some show ?thesis by (simp add: mkeysOf_distinct d)
  qed
qed

lemma concat_map_list_all2:
  "list_all2 (\<lambda>x y. f x = g y) xs ys \<Longrightarrow> concat (map f xs) = concat (map g ys)"
  by (induction xs ys rule: list_all2_induct) simp_all

lemma mset_concat_map_list_all2:
  "list_all2 (\<lambda>x y. mset (f x) = mset (g y)) xs ys \<Longrightarrow>
     mset (concat (map f xs)) = mset (concat (map g ys))"
  by (induction xs ys rule: list_all2_induct) simp_all

lemma checkMembers_sameDoc:
  "sameDoc mv mv' \<Longrightarrow> checkMembers cfg mv val cmem = checkMembers cfg mv' val cmem"
proof (induction "vsz val" arbitrary: val mv mv' cmem rule: less_induct)
  case less
  show ?case
  proof (cases "indirect val")
    case None
    then show ?thesis by (simp add: checkMembers_nil)
  next
    case (Some v)
    show ?thesis
    proof (cases v)
      case (VSlice tn tp t)
      with Some have ind: "indirect val = Some (VSlice tn tp t)" by simp
      note d = slice_descends [OF ind]
      show ?thesis
      proof (cases "isList mv")
        case True
        then obtain xs ys where xs: "mv = NList xs" "mv' = NList ys"
          using less.prems by (cases mv; cases mv') simp_all
        then have "list_all2 sameDoc xs ys" using less.prems by simp
        then have "list_all2 (\<lambda>x y. checkMembers cfg x (reflectNew (elemType t)) cmem
                     = checkMembers cfg y (reflectNew (elemType t)) cmem) xs ys"
          by (rule list_all2_mono) (rule less.hyps [OF d])
        then show ?thesis
          unfolding xs checkMembers_slice_list [OF ind] by (rule concat_map_list_all2)
      next
        case False
        then have "\<not> isList mv'" using sameDoc_isList [OF less.prems] by simp
        with False show ?thesis
          using less.hyps [OF d less.prems] by (simp add: checkMembers_slice_not_list [OF ind])
      qed
    next
      case (VStruct n p fs)
      with Some have ind: "indirect val = Some (VStruct n p fs)" by simp
      show ?thesis
      proof (cases "isMap mv")
        case True
        then obtain kvs kvs' where m: "mv = NMap kvs" "mv' = NMap kvs'"
          using less.prems by (cases mv; cases mv') simp_all
        have same: "sameDoc (NMap kvs) (NMap kvs')" using less.prems m by simp
        have "memberTurn cfg kvs cmem field = memberTurn cfg kvs' cmem field"
          if "field \<in> set (memberFields fs)" for field
          using sameDoc_lookup [OF same, of "lookupName field"]
            less.hyps [OF member_descends [OF ind that]]
          by (auto simp: memberTurn_def Let_def)
        then show ?thesis
          unfolding m checkMembers_struct_map [OF ind]
          by (simp cong: map_cong)
      next
        case False
        then have "\<not> isMap mv'" using sameDoc_isMap [OF less.prems] by simp
        with False show ?thesis by (simp add: checkMembers_struct_not_map [OF ind])
      qed
    qed (simp_all add: checkMembers_other [OF Some])
  qed
qed

lemma mset_concat_map_keyed:
  assumes "\<And>k v. (k, v) \<in> set kvs \<Longrightarrow> mset (T (k, v)) = g k"
  shows "mset (concat (map T kvs)) = sum_mset (image_mset g (mset (map fst kvs)))"
  using assms
proof (induction kvs)
  case Nil
  show ?case by simp
next
  case (Cons kv kvs)
  obtain k v where kv: "kv = (k, v)" by (cases kv)
  have "mset (T (k, v)) = g k" using Cons.prems [of k v] kv by simp
  moreover have "mset (concat (map T kvs)) = sum_mset (image_mset g (mset (map fst kvs)))"
    by (rule Cons.IH) (simp add: Cons.prems)
  ultimately show ?case by (simp add: kv)
qed

lemma mset_concat_map_assoc:
  assumes d: "distinct (map fst kvs)" and d': "distinct (map fst kvs')"
    and keys: "set (map fst kvs) = set (map fst kvs')"
    and same: "\<And>k v v'. (k, v) \<in> set kvs \<Longrightarrow> (k, v') \<in> set kvs' \<Longrightarrow>
                 mset (T (k, v)) = mset (T (k, v'))"
  shows "mset (concat (map T kvs)) = mset (concat (map T kvs'))"
proof -
  define g where "g k = mset (T (k, the (map_of kvs k)))" for k
  have 1: "mset (T (k, v)) = g k" if "(k, v) \<in> set kvs" for k v
    using that d by (simp add: g_def)
  have 2: "mset (T (k, v')) = g k" if kv': "(k, v') \<in> set kvs'" for k v'
  proof -
    from kv' have "k \<in> set (map fst kvs)" using keys by force
    then obtain v where v: "(k, v) \<in> set kvs" by auto
    then show ?thesis using same [OF v kv'] 1 [OF v] by simp
  qed
  have ks: "mset (map fst kvs) = mset (map fst kvs')"
    using d d' keys set_eq_iff_mset_eq_distinct [of "map fst kvs" "map fst kvs'"] by blast
  have "mset (concat (map T kvs)) = sum_mset (image_mset g (mset (map fst kvs)))"
    by (rule mset_concat_map_keyed [where T = T and g = g]) (rule 1)
  also have "\<dots> = sum_mset (image_mset g (mset (map fst kvs')))"
    by (simp only: ks)
  also have "\<dots> = mset (concat (map T kvs'))"
    by (rule mset_concat_map_keyed [where T = T and g = g, symmetric]) (rule 2)
  finally show ?thesis .
qed

lemma checkAllTags_sameDoc:
  "sameDoc mv mv' \<Longrightarrow>
     mset (checkAllTags cfg mv val key) = mset (checkAllTags cfg mv' val key)"
proof (induction "vsz val" arbitrary: val mv mv' key rule: less_induct)
  case less
  show ?case
  proof (cases "indirect val")
    case None
    then show ?thesis by (simp add: checkAllTags_nil)
  next
    case (Some v)
    show ?thesis
    proof (cases v)
      case (VSlice tn tp t)
      with Some have ind: "indirect val = Some (VSlice tn tp t)" by simp
      note d = slice_descends [OF ind]
      show ?thesis
      proof (cases "isList mv")
        case True
        then obtain xs ys where xs: "mv = NList xs" "mv' = NList ys"
          using less.prems by (cases mv; cases mv') simp_all
        then have "list_all2 sameDoc xs ys" using less.prems by simp
        then have "list_all2 (\<lambda>x y. mset (checkAllTags cfg x (reflectNew (elemType t)) key)
                     = mset (checkAllTags cfg y (reflectNew (elemType t)) key)) xs ys"
          by (rule list_all2_mono) (rule less.hyps [OF d])
        then show ?thesis
          unfolding xs checkAllTags_slice_list [OF ind] by (rule mset_concat_map_list_all2)
      next
        case False
        then have "\<not> isList mv'" using sameDoc_isList [OF less.prems] by simp
        with False show ?thesis by (simp add: checkAllTags_slice_not_list [OF ind])
      qed
    next
      case (VStruct n p fs)
      with Some have ind: "indirect val = Some (VStruct n p fs)" by simp
      show ?thesis
      proof (cases "isMap mv")
        case True
        then obtain kvs kvs' where m: "mv = NMap kvs" "mv' = NMap kvs'"
          using less.prems by (cases mv; cases mv') simp_all
        have same: "sameDoc (NMap kvs) (NMap kvs')" using less.prems m by simp
        have d: "distinct (map fst kvs)" "distinct (map fst kvs')" using same by simp_all
        have turn: "mset (tagTurn cfg (tagFields fs Map.empty) key (k, v))
                = mset (tagTurn cfg (tagFields fs Map.empty) key (k, v'))"
          if kv: "(k, v) \<in> set kvs" and kv': "(k, v') \<in> set kvs'" for k v v'
        proof -
          obtain w where "map_of kvs' k = Some w" "sameDoc v w"
            using sameDoc_member [OF same kv] by blast
          moreover have "map_of kvs' k = Some v'" using kv' d(2) by simp
          ultimately have vv': "sameDoc v v'" by simp
          show ?thesis
          proof (cases "tagFields fs Map.empty k")
            case None
            then show ?thesis by (simp add: tagTurn_def)
          next
            case (Some spec)
            then show ?thesis
              using less.hyps [OF tag_descends [OF ind Some] vv']
              by (simp add: tagTurn_def)
          qed
        qed
        show ?thesis
          unfolding m checkAllTags_struct_map [OF ind]
          by (rule mset_concat_map_assoc
                [where T = "tagTurn cfg (tagFields fs Map.empty) key", OF d sameDoc_keys [OF same]])
             (rule turn)
      next
        case False
        then have "\<not> isMap mv'" using sameDoc_isMap [OF less.prems] by simp
        with False show ?thesis by (simp add: checkAllTags_not_map [OF ind])
      qed
    qed (simp_all add: checkAllTags_other [OF Some])
  qed
qed

text \<open>
  Claim C9, as stated: two calls on the same document, struct and configuration return
  the same sequence, in the same order. The unknown-seeking walk appends its entries in
  the order in which it ranges over the document maps: for two orders of the pairs of
  the map \<open>{"e3": "x", "e4": "y"}\<close> the results are \<open>["e3", "e4"]\<close> and
  \<open>["e4", "e3"]\<close>.
\<close>

theorem repeated_calls_order_counterexample:
  "sameDoc (NMap [(''e3'', NScalar ''x''), (''e4'', NScalar ''y'')])
           (NMap [(''e4'', NScalar ''y''), (''e3'', NScalar ''x'')])
   \<and> fst (UnknownXMLTags initial
          (Inr [(''doc'', NMap [(''e3'', NScalar ''x''), (''e4'', NScalar ''y'')])]) doc1)
        = [''e3'', ''e4'']
   \<and> fst (UnknownXMLTags initial
          (Inr [(''doc'', NMap [(''e4'', NScalar ''y''), (''e3'', NScalar ''x'')])]) doc1)
        = [''e4'', ''e3'']"
  by code_simp

text \<open>
  Claim C9, amended. Both entry points are functions of the decoded document, the struct
  value and the configuration, which they only read: they return entries, root name and
  error, and no changed document, struct or configuration. For one document, whatever
  the order in which its maps are ranged over, \<open>MissingXMLTags\<close> returns the same
  sequence, root and error, and \<open>UnknownXMLTags\<close> returns the same entries with the
  same multiplicities, the same root and the same error; only the order of the entries
  of \<open>UnknownXMLTags\<close> may differ.
\<close>

theorem repeated_calls_same_entries:
  "sameDoc v v' \<Longrightarrow>
     mset (fst (UnknownXMLTags cfg (Inr [(root, v)]) val))
       = mset (fst (UnknownXMLTags cfg (Inr [(root, v')]) val))
     \<and> snd (UnknownXMLTags cfg (Inr [(root, v)]) val)
       = snd (UnknownXMLTags cfg (Inr [(root, v')]) val)
     \<and> MissingXMLTags cfg (Inr [(root, v)]) val = MissingXMLTags cfg (Inr [(root, v')]) val"
proof (intro conjI)
  assume same: "sameDoc v v'"
  note walks = checkAllTags_sameDoc [OF same, of cfg val "[]"]
    checkMembers_sameDoc [OF same, of cfg val "[]"]
  show "mset (fst (UnknownXMLTags cfg (Inr [(root, v)]) val))
          = mset (fst (UnknownXMLTags cfg (Inr [(root, v')]) val))"
    using same walks by (cases v; cases v') (simp_all add: UnknownXMLTags_def firstPair_def)
  show "snd (UnknownXMLTags cfg (Inr [(root, v)]) val)
          = snd (UnknownXMLTags cfg (Inr [(root, v')]) val)"
    using same by (cases v; cases v') (simp_all add: UnknownXMLTags_def firstPair_def)
  show "MissingXMLTags cfg (Inr [(root, v)]) val = MissingXMLTags cfg (Inr [(root, v')]) val"
    using same walks by (cases v; cases v') (simp_all add: MissingXMLTags_def firstValue_def)
qed

theorem repeated_calls_same_entries_witness:
  "sameDoc (NMap [(''e1'', NScalar ''t''), (''e3'', NScalar ''x''), (''e4'', NScalar ''y'')])
           (NMap [(''e4'', NScalar ''y''), (''e1'', NScalar ''t''), (''e3'', NScalar ''x'')])
   \<and> mset (fst (UnknownXMLTags initial (Inr [(''doc'',
         NMap [(''e1'', NScalar ''t''), (''e3'', NScalar ''x''), (''e4'', NScalar ''y'')])]) doc1))
     = mset (fst (UnknownXMLTags initial (Inr [(''doc'',
         NMap [(''e4'', NScalar ''y''), (''e1'', NScalar ''t''), (''e3'', NScalar ''x'')])]) doc1))
   \<and> MissingXMLTags initial (Inr [(''doc'',
         NMap [(''e1'', NScalar ''t''), (''e3'', NScalar ''x''), (''e4'', NScalar ''y'')])]) doc1
     = MissingXMLTags initial (Inr [(''doc'',
         NMap [(''e4'', NScalar ''y''), (''e1'', NScalar ''t''), (''e3'', NScalar ''x'')])]) doc1"
proof -
  have same:
    "sameDoc (NMap [(''e1'', NScalar ''t''), (''e3'', NScalar ''x''), (''e4'', NScalar ''y'')])
             (NMap [(''e4'', NScalar ''y''), (''e1'', NScalar ''t''), (''e3'', NScalar ''x'')])"
    by simp
  show ?thesis
    using same repeated_calls_same_entries [OF same, of initial "''doc''" doc1] by blast
qed

section \<open>The entries as dot-paths\<close>

lemma split_nonempty [simp]: "split c s \<noteq> []"
  by (induction s) (auto split: list.splits)

lemma split_no_sep: "c \<notin> set k \<Longrightarrow> split c k = [k]"
  by (induction k) auto

lemma split_append_sep: "split c (xs @ c # ys) = split c xs @ split c ys"
proof (induction xs)
  case Nil
  show ?case by simp
next
  case (Cons x xs)
  obtain w ws where w: "split c xs = w # ws" by (cases "split c xs") simp_all
  show ?case using Cons w by simp
qed

lemma tkeyOf_joinPath: "tkeyOf key k = joinPath key k"
  by (simp add: tkeyOf_def joinPath_def)

lemma joinPath_nonempty: "p \<noteq> [] \<Longrightarrow> joinPath p k = p @ CHR ''.'' # k"
  by (simp add: joinPath_def)

lemma split_joinPath:
  "p \<noteq> [] \<Longrightarrow> cleanName k \<Longrightarrow> split CHR ''.'' (joinPath p k) = split CHR ''.'' p @ [k]"
  by (simp add: joinPath_nonempty split_append_sep split_no_sep cleanName_def)

lemma split_foldl_joinPath:
  "p \<noteq> [] \<Longrightarrow> list_all cleanName ks \<Longrightarrow>
     split CHR ''.'' (foldl joinPath p ks) = split CHR ''.'' p @ ks"
proof (induction ks arbitrary: p)
  case Nil
  show ?case by simp
next
  case (Cons k ks)
  have "joinPath p k \<noteq> []" using Cons.prems by (simp add: joinPath_nonempty)
  then show ?case using Cons by (simp add: split_joinPath)
qed

lemma split_pathOf:
  assumes "ks \<noteq> []" and "list_all cleanName ks"
  shows "split CHR ''.'' (foldl joinPath [] ks) = ks"
proof -
  obtain k ks' where ks: "ks = k # ks'" using assms(1) by (cases ks) auto
  then have k: "k \<noteq> []" "CHR ''.'' \<notin> set k" "list_all cleanName ks'"
    using assms(2) by (simp_all add: cleanName_def)
  have "foldl joinPath [] ks = foldl joinPath k ks'" by (simp add: ks joinPath_def)
  then show ?thesis using split_foldl_joinPath [OF k(1,3)] k(2) by (simp add: ks split_no_sep)
qed

lemma validPath_clean: "list_all cleanName ks \<Longrightarrow> [] \<notin> set ks"
  by (induction ks) (auto simp: cleanName_def)

subsection \<open>Unknown entries resolve in the document\<close>

lemma resolves_member: "x \<in> set xs \<Longrightarrow> resolves x ks \<Longrightarrow> resolves (NList xs) ks"
  by (cases ks) (auto simp: list_ex_iff)

lemma resolves_key: "(k, m) \<in> set kvs \<Longrightarrow> resolves m ks \<Longrightarrow> resolves (NMap kvs) (k # ks)"
  by (auto simp: list_ex_iff)

lemma checkAllTags_entries:
  "e \<in> set (checkAllTags cfg mv val key) \<Longrightarrow> \<exists>ks. resolves mv ks \<and> e = foldl joinPath key ks"
proof (induction "vsz val" arbitrary: val mv key e rule: less_induct)
  case less
  show ?case
  proof (cases "indirect val")
    case None
    then show ?thesis using less.prems by (simp add: checkAllTags_nil)
  next
    case (Some v)
    show ?thesis
    proof (cases v)
      case (VSlice tn tp t)
      with Some have ind: "indirect val = Some (VSlice tn tp t)" by simp
      show ?thesis
      proof (cases mv)
        case (NList xs)
        then obtain sl where sl: "sl \<in> set xs"
            "e \<in> set (checkAllTags cfg sl (reflectNew (elemType t)) key)"
          using less.prems by (auto simp: checkAllTags_slice_list [OF ind])
        obtain ks where "resolves sl ks" "e = foldl joinPath key ks"
          using less.hyps [OF slice_descends [OF ind] sl(2)] by blast
        then show ?thesis using resolves_member [OF sl(1)] NList by blast
      next
        case NNil
        then have "e = foldl joinPath key []"
          using less.prems by (simp add: checkAllTags_slice_not_list [OF ind])
        then show ?thesis using resolves.simps(1) by blast
      next
        case (NScalar x)
        then have "e = foldl joinPath key []"
          using less.prems by (simp add: checkAllTags_slice_not_list [OF ind])
        then show ?thesis using resolves.simps(1) by blast
      next
        case (NMap kvs)
        then have "e = foldl joinPath key []"
          using less.prems by (simp add: checkAllTags_slice_not_list [OF ind])
        then show ?thesis using resolves.simps(1) by blast
      qed
    next
      case (VStruct n p fs)
      with Some have ind: "indirect val = Some (VStruct n p fs)" by simp
      show ?thesis
      proof (cases "isMap mv")
        case False
        then have "e = foldl joinPath key []"
          using less.prems by (simp add: checkAllTags_not_map [OF ind])
        then show ?thesis using resolves.simps(1) by blast
      next
        case True
        then obtain kvs where mv: "mv = NMap kvs" by (cases mv) auto
        then obtain k m where km: "(k, m) \<in> set kvs"
            "e \<in> set (tagTurn cfg (tagFields fs Map.empty) key (k, m))"
          using less.prems by (auto simp: checkAllTags_struct_map [OF ind])
        show ?thesis
        proof (cases "tagFields fs Map.empty k")
          case None
          then have "e = foldl joinPath key [k]"
            using km(2) by (auto simp: tagTurn_def tkeyOf_joinPath split: if_splits)
          moreover have "resolves mv [k]"
            using resolves_key [OF km(1), of "[]"] mv by simp
          ultimately show ?thesis by blast
        next
          case (Some spec)
          then have "e \<in> set (checkAllTags cfg m (ts_val spec) (joinPath key k))"
            using km(2) by (auto simp: tagTurn_def tkeyOf_joinPath split: if_splits)
          then obtain ks where ks: "resolves m ks" "e = foldl joinPath (joinPath key k) ks"
            using less.hyps [OF tag_descends [OF ind Some]] by blast
          then have "e = foldl joinPath key (k # ks)" by simp
          moreover have "resolves mv (k # ks)" using resolves_key [OF km(1) ks(1)] mv by simp
          ultimately show ?thesis by blast
        qed
      qed
    qed (use less.prems in \<open>simp_all add: checkAllTags_other [OF Some]\<close>)
  qed
qed

lemma resolves_clean: "resolves mv ks \<Longrightarrow> cleanDoc mv \<Longrightarrow> list_all cleanName ks"
proof (induction mv ks rule: resolves.induct)
  case (2 kvs k ks)
  then obtain v where v: "(k, v) \<in> set kvs" "resolves v ks" by (auto simp: list_ex_iff)
  then have "cleanName k" "cleanDoc v" using 2(3) by (auto simp: list_all_iff)
  then show ?case using 2(1) [OF v(1) refl v(2)] by simp
next
  case (3 xs k ks)
  then obtain x where x: "x \<in> set xs" "resolves x (k # ks)" by (auto simp: list_ex_iff)
  then have "cleanDoc x" using 3(3) by (auto simp: list_all_iff)
  then show ?case using 3(1) [OF x] by simp
qed simp_all

lemma checkAllTags_paths:
  assumes "cleanDoc mv" and "e \<in> set (checkAllTags cfg mv val [])"
  shows "e = [] \<or> (validPath e \<and> resolves mv (split CHR ''.'' e))"
proof -
  obtain ks where ks: "resolves mv ks" "e = foldl joinPath [] ks"
    using checkAllTags_entries [OF assms(2)] by blast
  show ?thesis
  proof (cases "ks = []")
    case True
    then show ?thesis using ks by simp
  next
    case False
    have clean: "list_all cleanName ks" by (rule resolves_clean [OF ks(1) assms(1)])
    have "split CHR ''.'' e = ks" using split_pathOf [OF False clean] ks(2) by simp
    then show ?thesis using ks(1) validPath_clean [OF clean] by (simp add: validPath_def)
  qed
qed

subsection \<open>Missing entries resolve in the struct definition\<close>

lemma declared_self: "val \<in> set (declared val [])"
  by (subst declared.simps) (auto split: option.splits gval.splits)

lemma declared_slice:
  "indirect val = Some (VSlice tn tp t) \<Longrightarrow>
     set (declared (reflectNew (elemType t)) ks) \<subseteq> set (declared val ks)"
  by (subst (2) declared.simps) simp

lemma declared_field:
  "indirect val = Some (VStruct n p fs) \<Longrightarrow> field \<in> set (memberFields fs) \<Longrightarrow>
     set (declared (fs_val field) ks) \<subseteq> set (declared val (lookupName field # ks))"
  by (subst (2) declared.simps) auto

lemma cleanSchema_slice:
  "indirect val = Some (VSlice tn tp t) \<Longrightarrow> cleanSchema val \<Longrightarrow> cleanSchema (reflectNew (elemType t))"
  by (subst (asm) cleanSchema.simps) simp

lemma cleanSchema_field:
  "indirect val = Some (VStruct n p fs) \<Longrightarrow> cleanSchema val \<Longrightarrow> field \<in> set (memberFields fs) \<Longrightarrow>
     cleanName (lookupName field) \<and> cleanSchema (fs_val field)"
  by (subst (asm) cleanSchema.simps) (simp add: list_all_iff)

lemma declared_clean:
  "v \<in> set (declared val ks) \<Longrightarrow> cleanSchema val \<Longrightarrow> list_all cleanName ks"
proof (induction "vsz val" arbitrary: val ks rule: less_induct)
  case less
  show ?case
  proof (cases ks)
    case Nil
    then show ?thesis by simp
  next
    case (Cons k ks')
    show ?thesis
    proof (cases "indirect val")
      case None
      then show ?thesis using less.prems(1) Cons by (subst (asm) declared.simps) simp
    next
      case (Some w)
      show ?thesis
      proof (cases w)
        case (VSlice tn tp t)
        with Some have ind: "indirect val = Some (VSlice tn tp t)" by simp
        have "v \<in> set (declared (reflectNew (elemType t)) ks)"
          using less.prems(1) ind Cons by (subst (asm) declared.simps) simp
        then show ?thesis
          using less.hyps [OF slice_descends [OF ind]] cleanSchema_slice [OF ind less.prems(2)]
          by blast
      next
        case (VStruct n p fs)
        with Some have ind: "indirect val = Some (VStruct n p fs)" by simp
        have "\<exists>field \<in> set (memberFields fs). lookupName field = k
                \<and> v \<in> set (declared (fs_val field) ks')"
          using less.prems(1) ind Cons
          by (subst (asm) declared.simps) (auto split: if_splits)
        then obtain field where field: "field \<in> set (memberFields fs)" "lookupName field = k"
            "v \<in> set (declared (fs_val field) ks')"
          by blast
        have "cleanName k" "cleanSchema (fs_val field)"
          using cleanSchema_field [OF ind less.prems(2) field(1)] field(2) by simp_all
        then show ?thesis
          using less.hyps [OF member_descends [OF ind field(1)] field(3)] Cons by simp
      qed (use less.prems(1) Some Cons in \<open>subst (asm) declared.simps, simp\<close>)+
    qed
  qed
qed

lemma map_snd_concat_map:
  "(\<And>x. x \<in> set xs \<Longrightarrow> map snd (f x) = g x) \<Longrightarrow>
     map snd (concat (map f xs)) = concat (map g xs)"
  by (induction xs) simp_all

lemma checkMembersFrom_erase:
  "map snd (checkMembersFrom cfg mv val cmem) = checkMembers cfg mv val cmem"
proof (induction "vsz val" arbitrary: val mv cmem rule: less_induct)
  case less
  show ?case
  proof (cases "indirect val")
    case None
    then show ?thesis by (simp add: checkMembers_nil checkMembersFrom_nil)
  next
    case (Some v)
    show ?thesis
    proof (cases v)
      case (VSlice tn tp t)
      with Some have ind: "indirect val = Some (VSlice tn tp t)" by simp
      show ?thesis
      proof (cases "isList mv")
        case True
        then obtain xs where xs: "mv = NList xs" by (cases mv) auto
        show ?thesis
          unfolding xs checkMembers_slice_list [OF ind] checkMembersFrom_slice_list [OF ind]
          by (rule map_snd_concat_map) (rule less.hyps [OF slice_descends [OF ind]])
      next
        case False
        show ?thesis
          unfolding checkMembers_slice_not_list [OF ind False]
            checkMembersFrom_slice_not_list [OF ind False]
          by (rule less.hyps [OF slice_descends [OF ind]])
      qed
    next
      case (VStruct n p fs)
      with Some have ind: "indirect val = Some (VStruct n p fs)" by simp
      show ?thesis
      proof (cases "isMap mv")
        case False
        then show ?thesis
          by (simp add: checkMembers_struct_not_map [OF ind]
              checkMembersFrom_struct_not_map [OF ind])
      next
        case True
        then obtain mm where mm: "mv = NMap mm" by (cases mv) auto
        show ?thesis
          unfolding mm checkMembers_struct_map [OF ind] checkMembersFrom_struct_map [OF ind]
        proof (rule map_snd_concat_map)
          fix field assume "field \<in> set (memberFields fs)"
          then show "map snd
             (if skipMember (skipmembers cfg) cmem (lookupName field) then []
              else (if mkeysOf mm (lookupName field) = None
                       \<and> (\<not> fs_omitempty field \<or> \<not> omitemptyOK cfg)
                    then [(AbsentField, joinPath cmem (lookupName field))] else [])
                   @ checkMembersFrom cfg
                       (case mkeysOf mm (lookupName field) of None \<Rightarrow> NNil | Some v \<Rightarrow> v)
                       (fs_val field) (joinPath cmem (lookupName field)))
            = memberTurn cfg mm cmem field"
            using less.hyps [OF member_descends [OF ind]]
            by (simp add: memberTurn_def Let_def)
        qed
      qed
    qed (simp_all add: checkMembers_other [OF Some] checkMembersFrom_other [OF Some])
  qed
qed

lemma checkMembersFrom_absent:
  "(AbsentField, e) \<in> set (checkMembersFrom cfg mv val cmem) \<Longrightarrow>
     \<exists>ks. ks \<noteq> [] \<and> declared val ks \<noteq> [] \<and> e = foldl joinPath cmem ks"
proof (induction "vsz val" arbitrary: val mv cmem rule: less_induct)
  case less
  show ?case
  proof (cases "indirect val")
    case None
    then show ?thesis using less.prems by (simp add: checkMembersFrom_nil)
  next
    case (Some v)
    show ?thesis
    proof (cases v)
      case (VSlice tn tp t)
      with Some have ind: "indirect val = Some (VSlice tn tp t)" by simp
      note sub = declared_slice [OF ind]
      obtain sl where sl:
        "(AbsentField, e) \<in> set (checkMembersFrom cfg sl (reflectNew (elemType t)) cmem)"
      proof (cases "isList mv")
        case True
        then obtain xs where xs: "mv = NList xs" by (cases mv) auto
        then obtain x where "x \<in> set xs"
            "(AbsentField, e) \<in> set (checkMembersFrom cfg x (reflectNew (elemType t)) cmem)"
          using less.prems by (auto simp: checkMembersFrom_slice_list [OF ind])
        then show ?thesis using that [of x] by simp
      next
        case False
        then have "(AbsentField, e) \<in> set (checkMembersFrom cfg mv (reflectNew (elemType t)) cmem)"
          using less.prems by (simp add: checkMembersFrom_slice_not_list [OF ind])
        then show ?thesis using that [of mv] by simp
      qed
      from less.hyps [OF slice_descends [OF ind] sl]
      obtain ks where ks: "ks \<noteq> []" "declared (reflectNew (elemType t)) ks \<noteq> []"
          "e = foldl joinPath cmem ks"
        by blast
      from ks(2) have "declared val ks \<noteq> []" using sub [of ks] by auto
      with ks(1,3) show ?thesis by blast
    next
      case (VStruct n p fs)
      with Some have ind: "indirect val = Some (VStruct n p fs)" by simp
      show ?thesis
      proof (cases "isMap mv")
        case False
        then show ?thesis
          using less.prems by (simp add: checkMembersFrom_struct_not_map [OF ind])
      next
        case True
        then obtain kvs where mv: "mv = NMap kvs" by (cases mv) auto
        from less.prems obtain field where field: "field \<in> set (memberFields fs)"
          and e: "e = joinPath cmem (lookupName field)
            \<or> (AbsentField, e) \<in> set (checkMembersFrom cfg
                (case mkeysOf kvs (lookupName field) of None \<Rightarrow> NNil | Some v \<Rightarrow> v)
                (fs_val field) (joinPath cmem (lookupName field)))"
          unfolding mv checkMembersFrom_struct_map [OF ind]
          by (auto split: if_splits)
        define fn where "fn = lookupName field"
        note sub = declared_field [OF ind field, folded fn_def]
        from e show ?thesis
        proof
          assume absent: "e = joinPath cmem (lookupName field)"
          have "declared val [fn] \<noteq> []"
            using sub [of "[]"] declared_self [of "fs_val field"] by auto
          moreover have "e = foldl joinPath cmem [fn]" using absent by (simp add: fn_def)
          ultimately show ?thesis by blast
        next
          assume deeper: "(AbsentField, e) \<in> set (checkMembersFrom cfg
                (case mkeysOf kvs (lookupName field) of None \<Rightarrow> NNil | Some v \<Rightarrow> v)
                (fs_val field) (joinPath cmem (lookupName field)))"
          from less.hyps [OF member_descends [OF ind field] deeper]
          obtain ks where a: "ks \<noteq> []" "declared (fs_val field) ks \<noteq> []"
              "e = foldl joinPath (joinPath cmem fn) ks"
            unfolding fn_def by blast
          have "declared val (fn # ks) \<noteq> []" using a(2) sub [of ks] by auto
          moreover have "e = foldl joinPath cmem (fn # ks)" using a(3) by simp
          ultimately show ?thesis by blast
        qed
      qed
    qed (use less.prems in \<open>simp_all add: checkMembersFrom_other [OF Some]\<close>)
  qed
qed

lemma checkMembersFrom_paths:
  assumes clean: "cleanSchema val"
    and e: "(AbsentField, e) \<in> set (checkMembersFrom cfg mv val [])"
  shows "fieldPath val e"
proof -
  from checkMembersFrom_absent [OF e]
  obtain ks where ks: "ks \<noteq> []" "declared val ks \<noteq> []" "e = foldl joinPath [] ks" by blast
  obtain v where "v \<in> set (declared val ks)" using ks(2) by (cases "declared val ks") auto
  then have c: "list_all cleanName ks" using declared_clean clean by blast
  have "split CHR ''.'' (foldl joinPath [] ks) = ks" by (rule split_pathOf [OF ks(1) c])
  then show ?thesis
    using ks validPath_clean [OF c] by (simp add: fieldPath_def validPath_def)
qed

lemma checkAllTags_prefix:
  "e \<in> set (checkAllTags cfg mv val key) \<Longrightarrow> \<exists>r. e = key @ r"
proof (induction "vsz val" arbitrary: val mv key rule: less_induct)
  case less
  show ?case
  proof (cases "indirect val")
    case None
    then show ?thesis using less.prems by (simp add: checkAllTags_nil)
  next
    case (Some v)
    show ?thesis
    proof (cases v)
      case (VSlice tn tp t)
      with Some have ind: "indirect val = Some (VSlice tn tp t)" by simp
      show ?thesis
      proof (cases "isList mv")
        case True
        then obtain xs where xs: "mv = NList xs" by (cases mv) auto
        from less.prems obtain sl where
          "e \<in> set (checkAllTags cfg sl (reflectNew (elemType t)) key)"
          unfolding xs checkAllTags_slice_list [OF ind] by auto
        then show ?thesis by (rule less.hyps [OF slice_descends [OF ind]])
      next
        case False
        then show ?thesis using less.prems by (simp add: checkAllTags_slice_not_list [OF ind])
      qed
    next
      case (VStruct n p fs)
      with Some have ind: "indirect val = Some (VStruct n p fs)" by simp
      show ?thesis
      proof (cases "isMap mv")
        case False
        then show ?thesis using less.prems by (simp add: checkAllTags_not_map [OF ind])
      next
        case True
        then obtain mm where mm: "mv = NMap mm" by (cases mv) auto
        from less.prems obtain k m where km: "(k, m) \<in> set mm"
          and e: "e \<in> set (tagTurn cfg (tagFields fs Map.empty) key (k, m))"
          unfolding mm checkAllTags_struct_map [OF ind] by auto
        have pre: "\<exists>r. tkeyOf key k = key @ r" by (simp add: tkeyOf_def)
        show ?thesis
        proof (cases "tagFields fs Map.empty k")
          case None
          then have "e = tkeyOf key k"
            using e by (auto simp: tagTurn_def split: if_splits)
          then show ?thesis using pre by simp
        next
          case (Some spec)
          then have "e \<in> set (checkAllTags cfg m (ts_val spec) (tkeyOf key k))"
            using e by (auto simp: tagTurn_def split: if_splits)
          from less.hyps [OF tag_descends [OF ind Some] this]
          obtain r where "e = tkeyOf key k @ r" by blast
          then show ?thesis using pre by auto
        qed
      qed
    qed (use less.prems in \<open>simp_all add: checkAllTags_other [OF Some]\<close>)
  qed
qed

lemma checkAllTags_struct_nonempty:
  assumes ind: "indirect val = Some (VStruct n p fs)"
    and keys: "[] \<notin> fst ` set mm"
    and e: "e \<in> set (checkAllTags cfg (NMap mm) val [])"
  shows "e \<noteq> []"
proof -
  from e obtain k m where km: "(k, m) \<in> set mm"
    and t: "e \<in> set (tagTurn cfg (tagFields fs Map.empty) [] (k, m))"
    unfolding checkAllTags_struct_map [OF ind] by auto
  have k: "k \<noteq> []" using km keys by force
  show ?thesis
  proof (cases "tagFields fs Map.empty k")
    case None
    then have "e = tkeyOf [] k" using t by (auto simp: tagTurn_def split: if_splits)
    then show ?thesis using k by (simp add: tkeyOf_def)
  next
    case (Some spec)
    then have "e \<in> set (checkAllTags cfg m (ts_val spec) (tkeyOf [] k))"
      using t by (auto simp: tagTurn_def split: if_splits)
    then obtain r where "e = tkeyOf [] k @ r" using checkAllTags_prefix by blast
    then show ?thesis using k by (simp add: tkeyOf_def)
  qed
qed

lemma cleanDoc_keys: "cleanDoc (NMap mm) \<Longrightarrow> [] \<notin> fst ` set mm"
  by (auto simp: list_all_iff cleanName_def)

lemma checkAllTags_struct_paths:
  assumes "cleanDoc (NMap mm)" and "indirect val = Some (VStruct n p fs)"
    and "e \<in> set (checkAllTags cfg (NMap mm) val [])"
  shows "validPath e \<and> resolves (NMap mm) (split CHR ''.'' e)"
  using checkAllTags_paths [OF assms(1,3)]
    checkAllTags_struct_nonempty [OF assms(2) cleanDoc_keys [OF assms(1)] assms(3)]
  by simp

text \<open>
  Claim C4, as stated: every entry of the results of \<open>UnknownXMLTags\<close> and
  \<open>MissingXMLTags\<close> is a non-empty dot-path without empty segments that resolves
  against the document root. An entry of \<open>MissingXMLTags\<close> names a field that the
  document lacks: \<open>e2\<close> does not resolve in \<open>{"e1": "test"}\<close>. A document key is
  joined to the path as it is: the element \<open><a.b>\<close> gives the entry \<open>a.b\<close>, whose
  segments \<open>a\<close> and \<open>b\<close> do not resolve in \<open>{"a.b": "x"}\<close>. And for a root value that
  is not a map, \<open>MissingXMLTags\<close> records the name of the type of the value passed,
  which is empty for a pointer to a struct.
\<close>

theorem result_entries_counterexample:
  "fst (MissingXMLTags initial (Inr [(''doc'', NMap [(''e1'', NScalar ''test'')])]) doc1)
     = [''e2'']
   \<and> \<not> resolves (NMap [(''e1'', NScalar ''test'')]) (split CHR ''.'' ''e2'')
   \<and> fst (UnknownXMLTags initial (Inr [(''doc'', NMap [(''a.b'', NScalar ''x'')])]) doc1)
     = [''a.b'']
   \<and> \<not> resolves (NMap [(''a.b'', NScalar ''x'')]) (split CHR ''.'' ''a.b'')
   \<and> fst (MissingXMLTags initial (Inr [(''doc'', NScalar [])]) (VPtr [] [] test)) = ['''']
   \<and> \<not> validPath []"
  by code_simp

text \<open>
  Claim C4, amended. For a struct value and a document whose root value is a map and
  whose keys are non-empty and contain no dot, every entry of the result of
  \<open>UnknownXMLTags\<close> is a dot-path without empty segments that resolves in the
  document, its segments being keys followed from the root value through maps and
  through the members of lists. For a struct definition whose looked-up names are
  non-empty and contain no dot, every entry that the missing-seeking walk records for an
  absent field is a dot-path without empty segments that resolves in the struct
  definition, its segments being the names of fields followed through nested structs and
  element types of slices. The entries recorded for a node that is not a map are not
  covered.
\<close>

theorem result_entries_resolve:
  "(cleanDoc v \<and> isMap v \<and> indirect val = Some (VStruct n p fs) \<longrightarrow>
      (\<forall>e \<in> set (fst (UnknownXMLTags cfg (Inr [(root, v)]) val)).
         validPath e \<and> resolves v (split CHR ''.'' e)))
   \<and> (isMap v \<or> isList v \<longrightarrow>
        fst (MissingXMLTags cfg (Inr [(root, v)]) val)
          = map snd (checkMembersFrom cfg (if isMap v then v else NMap []) val []))
   \<and> (cleanSchema val \<longrightarrow>
        (\<forall>e. (AbsentField, e) \<in> set (checkMembersFrom cfg mv val []) \<longrightarrow> fieldPath val e))"
proof -
  have unknown: "cleanDoc v \<and> isMap v \<and> indirect val = Some (VStruct n p fs) \<longrightarrow>
      (\<forall>e \<in> set (fst (UnknownXMLTags cfg (Inr [(root, v)]) val)).
         validPath e \<and> resolves v (split CHR ''.'' e))"
  proof (intro impI ballI)
    fix e
    assume a: "cleanDoc v \<and> isMap v \<and> indirect val = Some (VStruct n p fs)"
      and e: "e \<in> set (fst (UnknownXMLTags cfg (Inr [(root, v)]) val))"
    from a obtain mm where mm: "v = NMap mm" by (cases v) auto
    from e have "e \<in> set (checkAllTags cfg (NMap mm) val [])"
      by (simp add: mm UnknownXMLTags_def firstPair_def)
    then show "validPath e \<and> resolves v (split CHR ''.'' e)"
      using checkAllTags_struct_paths [of mm val n p fs e cfg] a mm by simp
  qed
  have erase: "isMap v \<or> isList v \<longrightarrow>
        fst (MissingXMLTags cfg (Inr [(root, v)]) val)
          = map snd (checkMembersFrom cfg (if isMap v then v else NMap []) val [])"
    by (cases v) (simp_all add: MissingXMLTags_def firstValue_def checkMembersFrom_erase)
  have missing: "cleanSchema val \<longrightarrow>
        (\<forall>e. (AbsentField, e) \<in> set (checkMembersFrom cfg mv val []) \<longrightarrow> fieldPath val e)"
    using checkMembersFrom_paths by blast
  from unknown erase missing show ?thesis by (intro conjI)
qed

text \<open>
  The document \<open><doc><ok>true</ok><more>text</more><extra>x</extra></doc>\<close> against
  the struct \<open>test\<close>: the unknown entries are \<open>more\<close> and \<open>extra\<close>, the missing
  entries \<open>why\<close>, for an absent field, and \<open>moretest2\<close>, for a node that is not a
  map.
\<close>

theorem result_entries_resolve_witness:
  "cleanDoc (NMap [(''ok'', NScalar ''true''), (''more'', NScalar ''text''),
                   (''extra'', NScalar ''x'')])
   \<and> isMap (NMap [(''ok'', NScalar ''true''), (''more'', NScalar ''text''),
                  (''extra'', NScalar ''x'')])
   \<and> indirect test = Some test
   \<and> cleanSchema test
   \<and> fst (UnknownXMLTags initial (Inr [(''doc'',
         NMap [(''ok'', NScalar ''true''), (''more'', NScalar ''text''),
               (''extra'', NScalar ''x'')])]) test) = [''more'', ''extra'']
   \<and> validPath ''extra''
   \<and> resolves (NMap [(''ok'', NScalar ''true''), (''more'', NScalar ''text''),
                     (''extra'', NScalar ''x'')]) (split CHR ''.'' ''extra'')
   \<and> checkMembersFrom initial
        (NMap [(''ok'', NScalar ''true''), (''more'', NScalar ''text''),
               (''extra'', NScalar ''x'')]) test []
       = [(AbsentField, ''why''), (NotAMap, ''moretest2'')]
   \<and> fst (MissingXMLTags initial (Inr [(''doc'',
         NMap [(''ok'', NScalar ''true''), (''more'', NScalar ''text''),
               (''extra'', NScalar ''x'')])]) test) = [''why'', ''moretest2'']
   \<and> fieldPath test ''why''"
proof -
  let ?d = "NMap [(''ok'', NScalar ''true''), (''more'', NScalar ''text''),
                  (''extra'', NScalar ''x'')]"
  have clean: "cleanDoc ?d \<and> isMap ?d \<and> indirect test = Some (VStruct ''test'' ''checkxml''
     [VField ''Ok'' [] ''ok'' goBool, VField ''Why'' [] ''why'' goString,
      VField ''More'' [] ''more'' test2])"
    by (simp add: test_def cleanName_def)
  have schema: "cleanSchema test" by code_simp
  have u: "fst (UnknownXMLTags initial (Inr [(''doc'', ?d)]) test) = [''more'', ''extra'']"
    by code_simp
  have t: "checkMembersFrom initial ?d test []
             = [(AbsentField, ''why''), (NotAMap, ''moretest2'')]"
    by code_simp
  note paths = result_entries_resolve [of ?d test "''test''" "''checkxml''" _ initial "''doc''" ?d]
  from paths clean u
  have 1: "validPath ''extra'' \<and> resolves ?d (split CHR ''.'' ''extra'')"
    by simp
  from paths t
  have m: "fst (MissingXMLTags initial (Inr [(''doc'', ?d)]) test) = [''why'', ''moretest2'']"
    by simp
  from paths schema t
  have 2: "fieldPath test ''why''"
    by simp
  from clean have 3: "cleanDoc ?d" "isMap ?d" "indirect test = Some test"
    by (simp_all add: test_def)
  show ?thesis
    using clean 3 schema u 1 t m 2 by simp
qed

end
